theory Spec2Isabelle
  imports Main "HOL-Library.Sublist" "HOL-Library.AList"
begin

section \<open>Strings\<close>

text \<open>
  A JavaScript string is modelled as a \<^typ>\<open>string\<close>: a list of code units, restricted
  to the 8-bit range. File contents are the decoded strings that \<^verbatim>\<open>fs.readFile(_, "utf-8")\<close>
  returns and \<^verbatim>\<open>fs.writeFile(_, _, "utf-8")\<close> takes.
\<close>

definition startsWith :: "string \<Rightarrow> string \<Rightarrow> bool" where
  "startsWith s p = prefix p s"

definition endsWith :: "string \<Rightarrow> string \<Rightarrow> bool" where
  "endsWith s p = suffix p s"

text \<open>\<^verbatim>\<open>String.prototype.indexOf\<close>: the position of the first occurrence.\<close>

fun indexOf :: "string \<Rightarrow> string \<Rightarrow> nat option" where
  "indexOf [] m = (if m = [] then Some 0 else None)"
| "indexOf (c # cs) m =
     (if prefix m (c # cs) then Some 0 else map_option Suc (indexOf cs m))"

definition includes_str :: "string \<Rightarrow> string \<Rightarrow> bool" where
  "includes_str s m = (indexOf s m \<noteq> None)"

text \<open>
  The abstract operation GetSubstitution of ECMAScript for a string pattern (no capture
  groups): in the replacement text, \<^verbatim>\<open>$$\<close> stands for a dollar sign, \<^verbatim>\<open>$&\<close> for the matched
  text, \<^verbatim>\<open>$`\<close> for the text before the match and \<^verbatim>\<open>$'\<close> for the text after it. Every
  other character, and a dollar sign followed by anything else, stands for itself.
\<close>

fun getSubstitution :: "string \<Rightarrow> string \<Rightarrow> string \<Rightarrow> string \<Rightarrow> string" where
  "getSubstitution m b a [] = []"
| "getSubstitution m b a [c] = [c]"
| "getSubstitution m b a (c # d # r) =
     (if c = CHR ''$'' then
        (if d = CHR ''$'' then CHR ''$'' # getSubstitution m b a r
         else if d = CHR ''&'' then m @ getSubstitution m b a r
         else if d = CHR 0x60 then b @ getSubstitution m b a r
         else if d = CHR 0x27 then a @ getSubstitution m b a r
         else c # getSubstitution m b a (d # r))
      else c # getSubstitution m b a (d # r))"

text \<open>\<^verbatim>\<open>String.prototype.replace\<close> with a string pattern: the first occurrence only.\<close>

definition replace_str :: "string \<Rightarrow> string \<Rightarrow> string \<Rightarrow> string" where
  "replace_str s pat repl =
     (case indexOf s pat of
        None \<Rightarrow> s
      | Some i \<Rightarrow>
          take i s
          @ getSubstitution pat (take i s) (drop (i + length pat) s) repl
          @ drop (i + length pat) s)"

subsection \<open>The marker-line regular expression\<close>

text \<open>
  Both \<^verbatim>\<open>injectCode\<close> and \<^verbatim>\<open>cleanupMarkers\<close> build
  \<^verbatim>\<open>new RegExp(`^\\s*${escaped}\\s*$`, "gm")\<close>, where \<^verbatim>\<open>escaped\<close> is the marker with
  every regular-expression metacharacter escaped: the marker taken literally, between two
  greedy runs of white space, from the start of a line to the end of a line.

  \<^verbatim>\<open>\s\<close> is white space including the line terminators; with the flag \<^verbatim>\<open>m\<close>, \<^verbatim>\<open>^\<close> holds
  at the start of the input and after a line terminator, \<^verbatim>\<open>$\<close> at the end of the input
  and before a line terminator.
\<close>

definition is_space :: "char \<Rightarrow> bool" where
  "is_space c = (c = CHR 0x09 \<or> c = CHR 0x0A \<or> c = CHR 0x0B \<or> c = CHR 0x0C
                 \<or> c = CHR 0x0D \<or> c = CHR 0x20 \<or> c = CHR 0xA0)"

definition is_line_terminator :: "char \<Rightarrow> bool" where
  "is_line_terminator c = (c = CHR 0x0A \<or> c = CHR 0x0D)"

text \<open>
  \<open>match_trailing r\<close>: the second \<^verbatim>\<open>\s*\<close> followed by \<^verbatim>\<open>$\<close>, on the input \<open>r\<close> that
  follows the marker. Greedy with backtracking: the longest run of white space that ends
  where \<^verbatim>\<open>$\<close> holds. The result is the number of characters matched.
\<close>

fun match_trailing :: "string \<Rightarrow> nat option" where
  "match_trailing [] = Some 0"
| "match_trailing (c # cs) =
     (if is_space c then
        (case match_trailing cs of
           Some j \<Rightarrow> Some (Suc j)
         | None \<Rightarrow> if is_line_terminator c then Some 0 else None)
      else None)"

text \<open>\<open>match_literal m r\<close>: the marker taken literally, then the trailing part.\<close>

definition match_literal :: "string \<Rightarrow> string \<Rightarrow> nat option" where
  "match_literal m r =
     (if prefix m r
      then map_option (\<lambda>j. length m + j) (match_trailing (drop (length m) r))
      else None)"

text \<open>
  \<open>match_marker_line m r\<close>: the whole pattern after \<^verbatim>\<open>^\<close>, on the input \<open>r\<close> that starts
  a line. The first \<^verbatim>\<open>\s*\<close> is greedy: it gives a character back only when the rest of
  the pattern fails after it.
\<close>

fun match_marker_line :: "string \<Rightarrow> string \<Rightarrow> nat option" where
  "match_marker_line m [] = match_literal m []"
| "match_marker_line m (c # cs) =
     (if is_space c then
        (case match_marker_line m cs of
           Some l \<Rightarrow> Some (Suc l)
         | None \<Rightarrow> match_literal m (c # cs))
      else match_literal m (c # cs))"

text \<open>
  \<open>strip_from m bol s\<close> is \<^verbatim>\<open>s.replace(regex, "")\<close> on the rest \<open>s\<close> of the input;
  \<open>bol\<close> tells whether \<^verbatim>\<open>^\<close> holds at its start. The search goes from left to right and
  resumes where a match ended, one character further after an empty match.
\<close>

function strip_from :: "string \<Rightarrow> bool \<Rightarrow> string \<Rightarrow> string" where
  "strip_from m bol [] = []"
| "strip_from m bol (c # cs) =
     (case (if bol then match_marker_line m (c # cs) else None) of
        None \<Rightarrow> c # strip_from m (is_line_terminator c) cs
      | Some 0 \<Rightarrow> c # strip_from m (is_line_terminator c) cs
      | Some (Suc l) \<Rightarrow>
          strip_from m (is_line_terminator ((c # cs) ! l)) (drop l cs))"
  by pat_completeness auto
termination
  by (relation "measure (\<lambda>(m, bol, s). length s)") auto

definition strip_marker_lines :: "string \<Rightarrow> string \<Rightarrow> string" where
  "strip_marker_lines m s = strip_from m True s"

text \<open>\<^verbatim>\<open>regex.test(content)\<close> on a fresh regular expression: is there a match at all.\<close>

fun test_from :: "string \<Rightarrow> bool \<Rightarrow> string \<Rightarrow> bool" where
  "test_from m bol [] = (bol \<and> match_marker_line m [] \<noteq> None)"
| "test_from m bol (c # cs) =
     ((bol \<and> match_marker_line m (c # cs) \<noteq> None) \<or> test_from m (is_line_terminator c) cs)"

definition test_marker_line :: "string \<Rightarrow> string \<Rightarrow> bool" where
  "test_marker_line m s = test_from m True s"

section \<open>The file system\<close>

text \<open>
  A path is the list of its components (\<open>split_path\<close> of the path string: the parts
  between slashes). The path strings of a run are absolute and normalised, as
  \<^verbatim>\<open>path.join\<close> and \<^verbatim>\<open>path.resolve\<close> return them. The file system maps paths to nodes,
  in an association list; the root directory always exists. Permissions are not modelled.
\<close>

type_synonym path = "string list"

datatype node = File string | Dir

type_synonym filesystem = "(path \<times> node) list"

datatype errno = ENOENT | ENOTDIR | EISDIR | EEXIST

fun splitOn :: "char \<Rightarrow> string \<Rightarrow> string list" where
  "splitOn d [] = [[]]"
| "splitOn d (c # cs) =
     (if c = d then [] # splitOn d cs
      else (case splitOn d cs of [] \<Rightarrow> [[c]] | w # ws \<Rightarrow> (c # w) # ws))"

definition split_path :: "string \<Rightarrow> path" where
  "split_path s = filter (\<lambda>w. w \<noteq> []) (splitOn CHR ''/'' s)"

definition node_at :: "filesystem \<Rightarrow> path \<Rightarrow> node option" where
  "node_at fs p = (if p = [] then Some Dir else map_of fs p)"

definition is_file_node :: "node option \<Rightarrow> bool" where
  "is_file_node n = (case n of Some (File c) \<Rightarrow> True | _ \<Rightarrow> False)"

text \<open>Some proper ancestor of the path is a regular file.\<close>

definition under_file :: "filesystem \<Rightarrow> path \<Rightarrow> bool" where
  "under_file fs p = list_ex (\<lambda>q. is_file_node (node_at fs q)) (butlast (prefixes p))"

definition missing :: "filesystem \<Rightarrow> path \<Rightarrow> errno" where
  "missing fs p = (if under_file fs p then ENOTDIR else ENOENT)"

definition readFile :: "filesystem \<Rightarrow> path \<Rightarrow> errno + string" where
  "readFile fs p =
     (case node_at fs p of
        Some (File c) \<Rightarrow> Inr c
      | Some Dir \<Rightarrow> Inl EISDIR
      | None \<Rightarrow> Inl (missing fs p))"

text \<open>Writing replaces an existing file; a new file needs its directory.\<close>

definition writeFile :: "filesystem \<Rightarrow> path \<Rightarrow> string \<Rightarrow> errno + filesystem" where
  "writeFile fs p d =
     (case node_at fs p of
        Some Dir \<Rightarrow> Inl EISDIR
      | Some (File c) \<Rightarrow> Inr (AList.update p (File d) fs)
      | None \<Rightarrow>
         (case node_at fs (butlast p) of
            Some Dir \<Rightarrow> Inr (AList.update p (File d) fs)
          | Some (File c) \<Rightarrow> Inl ENOTDIR
          | None \<Rightarrow> Inl (missing fs (butlast p))))"

text \<open>\<^verbatim>\<open>fs.mkdir(p, { recursive: true })\<close>: every missing directory down to \<open>p\<close>.\<close>

fun mkdirs :: "filesystem \<Rightarrow> path list \<Rightarrow> filesystem" where
  "mkdirs fs [] = fs"
| "mkdirs fs (q # qs) =
     mkdirs (if node_at fs q = None then AList.update q Dir fs else fs) qs"

definition mkdir_recursive :: "filesystem \<Rightarrow> path \<Rightarrow> errno + filesystem" where
  "mkdir_recursive fs p =
     (if is_file_node (node_at fs p) then Inl EEXIST
      else if under_file fs p then Inl ENOTDIR
      else Inr (mkdirs fs (prefixes p)))"

datatype stats = IsFile | IsDirectory

definition stat :: "filesystem \<Rightarrow> path \<Rightarrow> errno + stats" where
  "stat fs p =
     (case node_at fs p of
        Some (File c) \<Rightarrow> Inr IsFile
      | Some Dir \<Rightarrow> Inr IsDirectory
      | None \<Rightarrow> Inl (missing fs p))"

text \<open>\<^verbatim>\<open>fs.readdir\<close>: the names of the directory's entries.\<close>

definition readdir :: "filesystem \<Rightarrow> path \<Rightarrow> errno + string list" where
  "readdir fs p =
     (case node_at fs p of
        Some Dir \<Rightarrow>
          Inr (remdups (map (\<lambda>q. last q)
                 (filter (\<lambda>q. q \<noteq> [] \<and> butlast q = p) (map fst fs))))
      | Some (File c) \<Rightarrow> Inl ENOTDIR
      | None \<Rightarrow> Inl (missing fs p))"

section \<open>JSON\<close>

text \<open>
  The values that \<^verbatim>\<open>JSON.parse\<close> returns. An object is the list of its properties in
  the order in which JavaScript enumerates them. A number is kept as its literal; only
  integer literals of at most 15 digits are modelled, which \<^verbatim>\<open>JSON.stringify\<close> prints back
  digit for digit.
\<close>

datatype json =
    JNull
  | JBool bool
  | JNum string
  | JStr string
  | JArr "json list"
  | JObj "(string \<times> json) list"

text \<open>
  \<open>SyntaxError\<close> is the exception of \<^verbatim>\<open>JSON.parse\<close>. \<open>OutsideModel\<close> marks a text this
  model does not cover (a number that is not a short integer literal, an escape
  \<^verbatim>\<open>\uXXXX\<close> beyond the 8-bit range); it says nothing about what \<^verbatim>\<open>JSON.parse\<close> does there.
  Where a function of the program gets \<open>OutsideModel\<close> from \<open>JSON_parse\<close>, what the model
  returns (an error that carries \<open>OutsideModel\<close>, or the file written as for a text that
  does not parse) is no statement about the program: on such a text \<^verbatim>\<open>JSON.parse\<close> may well
  succeed. The theorems about a parsed text have the result of \<open>JSON_parse\<close>, a value or
  \<open>SyntaxError\<close>, as a hypothesis.
\<close>

datatype parse_error = SyntaxError | OutsideModel

subsection \<open>Objects\<close>

definition is_digit :: "char \<Rightarrow> bool" where
  "is_digit c = (48 \<le> (of_char c :: nat) \<and> (of_char c :: nat) \<le> 57)"

definition int_of_digits :: "string \<Rightarrow> int" where
  "int_of_digits ds = foldl (\<lambda>n c. 10 * n + ((of_char c :: int) - 48)) 0 ds"

text \<open>An array index: the canonical decimal numeral of an integer below \<open>2^32 - 1\<close>.\<close>

definition is_array_index :: "string \<Rightarrow> bool" where
  "is_array_index k =
     (k \<noteq> [] \<and> list_all is_digit k \<and> (length k = 1 \<or> hd k \<noteq> CHR ''0'')
      \<and> int_of_digits k < 4294967295)"

fun insert_index :: "string \<Rightarrow> 'v \<Rightarrow> (string \<times> 'v) list \<Rightarrow> (string \<times> 'v) list" where
  "insert_index k v [] = [(k, v)]"
| "insert_index k v (p # ps) =
     (if is_array_index (fst p) \<and> int_of_digits (fst p) < int_of_digits k
      then p # insert_index k v ps
      else (k, v) # p # ps)"

text \<open>
  Setting a property of an ordinary object: an existing key keeps its place; a new key
  goes after the others, but array indices come first, in ascending order.
\<close>

definition obj_set :: "string \<Rightarrow> 'v \<Rightarrow> (string \<times> 'v) list \<Rightarrow> (string \<times> 'v) list" where
  "obj_set k v ps =
     (if map_of ps k \<noteq> None then AList.update k v ps
      else if is_array_index k then insert_index k v ps
      else ps @ [(k, v)])"

text \<open>
  The properties of \<^verbatim>\<open>{...a, ...b}\<close>: each property of the source is defined on the target,
  in the order of the source.
\<close>

definition assign :: "(string \<times> 'v) list \<Rightarrow> (string \<times> 'v) list \<Rightarrow> (string \<times> 'v) list" where
  "assign target source = foldl (\<lambda>t p. obj_set (fst p) (snd p) t) target source"

text \<open>
  \<^verbatim>\<open>Object.assign(target, source)\<close> sets each property of the source on the target. The
  name \<^verbatim>\<open>__proto__\<close>, set on an object whose prototype is \<^verbatim>\<open>Object.prototype\<close>, reaches the
  setter of the prototype and makes no property of the target. With \<^verbatim>\<open>null\<close> or an object
  as the value the setter replaces the prototype of the target, of which the program
  reads the own properties only. The model leaves one case out: a target whose
  prototype was replaced by \<^verbatim>\<open>null\<close> no longer reaches the setter, and would take a later
  \<^verbatim>\<open>__proto__\<close> as a property of its own.
\<close>

definition Object_assign ::
  "(string \<times> 'v) list \<Rightarrow> (string \<times> 'v) list \<Rightarrow> (string \<times> 'v) list" where
  "Object_assign target source = assign target (filter (\<lambda>p. fst p \<noteq> ''__proto__'') source)"

fun digits_of :: "nat \<Rightarrow> nat \<Rightarrow> string" where
  "digits_of 0 n = []"
| "digits_of (Suc f) n =
     (if n < 10 then [char_of (48 + n)]
      else digits_of f (n div 10) @ [char_of (48 + n mod 10)])"

definition show_nat :: "nat \<Rightarrow> string" where
  "show_nat n = digits_of (Suc n) n"

text \<open>
  The own enumerable properties that a spread \<^verbatim>\<open>...v\<close> copies: those of an object, the
  elements of an array and the characters of a string under their indices, none of
  \<^verbatim>\<open>undefined\<close> (\<open>None\<close>), \<^verbatim>\<open>null\<close>, a boolean or a number.
\<close>

definition spread :: "json option \<Rightarrow> (string \<times> json) list" where
  "spread v =
     (case v of
        Some (JObj ps) \<Rightarrow> ps
      | Some (JArr es) \<Rightarrow> zip (map show_nat [0..<length es]) es
      | Some (JStr cs) \<Rightarrow> zip (map show_nat [0..<length cs]) (map (\<lambda>c. JStr [c]) cs)
      | _ \<Rightarrow> [])"

text \<open>Reading the property \<open>k\<close> of a parsed value; \<open>None\<close> is \<^verbatim>\<open>undefined\<close>.\<close>

datatype js_error = TypeError

definition get_prop :: "json \<Rightarrow> string \<Rightarrow> js_error + json option" where
  "get_prop v k =
     (case v of
        JNull \<Rightarrow> Inl TypeError
      | JObj ps \<Rightarrow> Inr (map_of ps k)
      | _ \<Rightarrow> Inr None)"

text \<open>
  The assignment \<^verbatim>\<open>v.k = x\<close> in strict code (the program is an ES module), for a name
  \<open>k\<close> that is not an array index: a property set on an array is not serialised, and a
  primitive value takes no property.
\<close>

definition set_prop :: "json \<Rightarrow> string \<Rightarrow> json \<Rightarrow> js_error + json" where
  "set_prop v k x =
     (case v of
        JObj ps \<Rightarrow> Inr (JObj (obj_set k x ps))
      | JArr es \<Rightarrow> Inr (JArr es)
      | _ \<Rightarrow> Inl TypeError)"

subsection \<open>\<^verbatim>\<open>JSON.parse\<close>\<close>

datatype token =
    LBrace | RBrace | LBracket | RBracket | Colon | Comma
  | TString string | TNumber string | TTrue | TFalse | TNull

definition hex_val :: "char \<Rightarrow> nat option" where
  "hex_val c =
     (let n = (of_char c :: nat) in
      if 48 \<le> n \<and> n \<le> 57 then Some (n - 48)
      else if 65 \<le> n \<and> n \<le> 70 then Some (n - 55)
      else if 97 \<le> n \<and> n \<le> 102 then Some (n - 87)
      else None)"

definition hex4 :: "char \<Rightarrow> char \<Rightarrow> char \<Rightarrow> char \<Rightarrow> nat option" where
  "hex4 a b c d =
     (case (hex_val a, hex_val b, hex_val c, hex_val d) of
        (Some w, Some x, Some y, Some z) \<Rightarrow> Some (((w * 16 + x) * 16 + y) * 16 + z)
      | _ \<Rightarrow> None)"

definition unescape :: "char \<Rightarrow> char option" where
  "unescape e =
     (if e = CHR 0x22 then Some (CHR 0x22)
      else if e = CHR 0x5C then Some (CHR 0x5C)
      else if e = CHR ''/'' then Some (CHR ''/'')
      else if e = CHR ''b'' then Some (CHR 0x08)
      else if e = CHR ''f'' then Some (CHR 0x0C)
      else if e = CHR ''n'' then Some (CHR 0x0A)
      else if e = CHR ''r'' then Some (CHR 0x0D)
      else if e = CHR ''t'' then Some (CHR 0x09)
      else None)"

definition str_cons :: "char \<Rightarrow> nat \<Rightarrow> parse_error + (string \<times> nat) \<Rightarrow> parse_error + (string \<times> nat)" where
  "str_cons c k r = (case r of Inl e \<Rightarrow> Inl e | Inr (s, n) \<Rightarrow> Inr (c # s, n + k))"

text \<open>
  \<open>lex_string cs\<close> reads a string literal whose opening quote came just before \<open>cs\<close>:
  the string it denotes, and the number of characters read, closing quote included.
\<close>

fun lex_string :: "string \<Rightarrow> parse_error + (string \<times> nat)" where
  "lex_string [] = Inl SyntaxError"
| "lex_string (c # cs) =
     (if c = CHR 0x22 then Inr ([], 1)
      else if c = CHR 0x5C then
        (case cs of
           [] \<Rightarrow> Inl SyntaxError
         | e # es \<Rightarrow>
            (if e = CHR ''u'' then
               (case es of
                  h1 # h2 # h3 # h4 # r \<Rightarrow>
                    (case hex4 h1 h2 h3 h4 of
                       None \<Rightarrow> Inl SyntaxError
                     | Some n \<Rightarrow>
                         if n < 256 then str_cons (char_of n) 6 (lex_string r)
                         else Inl OutsideModel)
                | _ \<Rightarrow> Inl SyntaxError)
             else
               (case unescape e of
                  None \<Rightarrow> Inl SyntaxError
                | Some d \<Rightarrow> str_cons d 2 (lex_string es))))
      else if (of_char c :: nat) < 32 then Inl SyntaxError
      else str_cons c 1 (lex_string cs))"

text \<open>
  \<open>lex_number s\<close> reads the longest number literal at the start of \<open>s\<close>, after the
  grammar \<^verbatim>\<open>-?(0|[1-9][0-9]*)(\.[0-9]+)?([eE][+-]?[0-9]+)?\<close>.
\<close>

definition lex_int :: "string \<Rightarrow> string option" where
  "lex_int s =
     (case s of
        [] \<Rightarrow> None
      | c # cs \<Rightarrow>
          if c = CHR ''0'' then Some [c]
          else if is_digit c then Some (c # takeWhile is_digit cs)
          else None)"

definition lex_frac :: "string \<Rightarrow> string option" where
  "lex_frac s =
     (case s of
        [] \<Rightarrow> Some []
      | c # cs \<Rightarrow>
          if c = CHR ''.'' then
            (if takeWhile is_digit cs = [] then None else Some (c # takeWhile is_digit cs))
          else Some [])"

definition lex_exp :: "string \<Rightarrow> string option" where
  "lex_exp s =
     (case s of
        [] \<Rightarrow> Some []
      | c # cs \<Rightarrow>
          if c = CHR ''e'' \<or> c = CHR ''E'' then
            (let sign = (case cs of
                           [] \<Rightarrow> []
                         | d # ds \<Rightarrow> if d = CHR ''+'' \<or> d = CHR ''-'' then [d] else []);
                 ds = takeWhile is_digit (drop (length sign) cs)
             in if ds = [] then None else Some (c # sign @ ds))
          else Some [])"

definition lex_number :: "string \<Rightarrow> string option" where
  "lex_number s =
     (let sign = (case s of [] \<Rightarrow> [] | c # cs \<Rightarrow> if c = CHR ''-'' then [c] else []) in
      case lex_int (drop (length sign) s) of
        None \<Rightarrow> None
      | Some i \<Rightarrow>
         (case lex_frac (drop (length sign + length i) s) of
            None \<Rightarrow> None
          | Some f \<Rightarrow>
             (case lex_exp (drop (length sign + length i + length f) s) of
                None \<Rightarrow> None
              | Some e \<Rightarrow> Some (sign @ i @ f @ e))))"

text \<open>The number literals of the model: an integer of at most 15 digits, not \<^verbatim>\<open>-0\<close>.\<close>

definition modelled_number :: "string \<Rightarrow> bool" where
  "modelled_number n =
     (let ds = (case n of [] \<Rightarrow> [] | c # cs \<Rightarrow> if c = CHR ''-'' then cs else n) in
      list_all is_digit ds \<and> length ds \<le> 15 \<and> n \<noteq> ''-0'')"

definition is_json_ws :: "char \<Rightarrow> bool" where
  "is_json_ws c = (c = CHR 0x20 \<or> c = CHR 0x09 \<or> c = CHR 0x0A \<or> c = CHR 0x0D)"

definition tok_cons :: "token \<Rightarrow> parse_error + token list \<Rightarrow> parse_error + token list" where
  "tok_cons t r = (case r of Inl e \<Rightarrow> Inl e | Inr ts \<Rightarrow> Inr (t # ts))"

text \<open>The tokens of one character.\<close>

definition punctuation :: "char \<Rightarrow> token option" where
  "punctuation c =
     (if c = CHR ''{'' then Some LBrace
      else if c = CHR ''}'' then Some RBrace
      else if c = CHR ''['' then Some LBracket
      else if c = CHR '']'' then Some RBracket
      else if c = CHR '':'' then Some Colon
      else if c = CHR '','' then Some Comma
      else None)"

text \<open>The literal names: the token, and the number of characters after the first.\<close>

definition literal_name :: "string \<Rightarrow> (token \<times> nat) option" where
  "literal_name s =
     (if prefix ''true'' s then Some (TTrue, 3)
      else if prefix ''false'' s then Some (TFalse, 4)
      else if prefix ''null'' s then Some (TNull, 3)
      else None)"

function tokenize :: "string \<Rightarrow> parse_error + token list" where
  "tokenize [] = Inr []"
| "tokenize (c # cs) =
     (if is_json_ws c then tokenize cs
      else
        (case punctuation c of
           Some t \<Rightarrow> tok_cons t (tokenize cs)
         | None \<Rightarrow>
            if c = CHR 0x22 then
              (case lex_string cs of
                 Inl e \<Rightarrow> Inl e
               | Inr (s, n) \<Rightarrow> tok_cons (TString s) (tokenize (drop n cs)))
            else if c = CHR ''-'' \<or> is_digit c then
              (case lex_number (c # cs) of
                 None \<Rightarrow> Inl SyntaxError
               | Some n \<Rightarrow>
                   if modelled_number n
                   then tok_cons (TNumber n) (tokenize (drop (length n - 1) cs))
                   else Inl OutsideModel)
            else
              (case literal_name (c # cs) of
                 Some (t, k) \<Rightarrow> tok_cons t (tokenize (drop k cs))
               | None \<Rightarrow> Inl SyntaxError)))"
  by pat_completeness auto
termination
  by (relation "measure length") auto

text \<open>
  The parser runs over the tokens with a stack of the arrays and objects that are open.
  \<open>InArr es\<close> is an array with its elements so far, \<open>InObj ps k\<close> an object with its
  properties so far and the key whose value is being read. A repeated key overwrites.
\<close>

datatype frame = InArr "json list" | InObj "(string \<times> json) list" "string option"

datatype mode =
    WantValue | WantValueOrClose | WantKey | WantKeyOrClose | WantColon
  | AfterValue | Finished json

type_synonym pstate = "mode \<times> frame list"

text \<open>A complete value goes to the innermost open array or object, or is the result.\<close>

fun reduce :: "json \<Rightarrow> frame list \<Rightarrow> pstate option" where
  "reduce v [] = Some (Finished v, [])"
| "reduce v (InArr es # st) = Some (AfterValue, InArr (es @ [v]) # st)"
| "reduce v (InObj ps (Some k) # st) = Some (AfterValue, InObj (obj_set k v ps) None # st)"
| "reduce v (InObj ps None # st) = None"

definition scalar :: "token \<Rightarrow> json option" where
  "scalar t =
     (case t of
        TString s \<Rightarrow> Some (JStr s)
      | TNumber n \<Rightarrow> Some (JNum n)
      | TTrue \<Rightarrow> Some (JBool True)
      | TFalse \<Rightarrow> Some (JBool False)
      | TNull \<Rightarrow> Some JNull
      | _ \<Rightarrow> None)"

definition value_start :: "token \<Rightarrow> frame list \<Rightarrow> pstate option" where
  "value_start t st =
     (case t of
        LBracket \<Rightarrow> Some (WantValueOrClose, InArr [] # st)
      | LBrace \<Rightarrow> Some (WantKeyOrClose, InObj [] None # st)
      | _ \<Rightarrow> (case scalar t of Some v \<Rightarrow> reduce v st | None \<Rightarrow> None))"

definition key_start :: "token \<Rightarrow> frame list \<Rightarrow> pstate option" where
  "key_start t st =
     (case (t, st) of
        (TString k, InObj ps None # st') \<Rightarrow> Some (WantColon, InObj ps (Some k) # st')
      | _ \<Rightarrow> None)"

definition close :: "token \<Rightarrow> frame list \<Rightarrow> pstate option" where
  "close t st =
     (case (t, st) of
        (RBracket, InArr es # st') \<Rightarrow> reduce (JArr es) st'
      | (RBrace, InObj ps None # st') \<Rightarrow> reduce (JObj ps) st'
      | _ \<Rightarrow> None)"

definition pstep :: "pstate \<Rightarrow> token \<Rightarrow> pstate option" where
  "pstep s t =
     (case s of
        (WantValue, st) \<Rightarrow> value_start t st
      | (WantValueOrClose, st) \<Rightarrow> (if t = RBracket then close t st else value_start t st)
      | (WantKey, st) \<Rightarrow> key_start t st
      | (WantKeyOrClose, st) \<Rightarrow> (if t = RBrace then close t st else key_start t st)
      | (WantColon, st) \<Rightarrow> (if t = Colon then Some (WantValue, st) else None)
      | (AfterValue, st) \<Rightarrow>
          (if t = Comma then
             (case st of
                InArr es # st' \<Rightarrow> Some (WantValue, st)
              | InObj ps k # st' \<Rightarrow> Some (WantKey, st)
              | [] \<Rightarrow> None)
           else close t st)
      | (Finished v, st) \<Rightarrow> None)"

fun parse_tokens :: "pstate \<Rightarrow> token list \<Rightarrow> json option" where
  "parse_tokens s [] = (case s of (Finished v, st) \<Rightarrow> Some v | _ \<Rightarrow> None)"
| "parse_tokens s (t # ts) =
     (case pstep s t of None \<Rightarrow> None | Some s' \<Rightarrow> parse_tokens s' ts)"

definition JSON_parse :: "string \<Rightarrow> parse_error + json" where
  "JSON_parse s =
     (case tokenize s of
        Inl e \<Rightarrow> Inl e
      | Inr ts \<Rightarrow>
         (case parse_tokens (WantValue, []) ts of
            None \<Rightarrow> Inl SyntaxError
          | Some v \<Rightarrow> Inr v))"

subsection \<open>\<^verbatim>\<open>JSON.stringify(value, null, 2)\<close>\<close>

definition hex_digit :: "nat \<Rightarrow> char" where
  "hex_digit n = (if n < 10 then char_of (48 + n) else char_of (87 + n))"

definition quote_char :: "char \<Rightarrow> string" where
  "quote_char c =
     (if c = CHR 0x08 then [CHR 0x5C, CHR ''b'']
      else if c = CHR 0x09 then [CHR 0x5C, CHR ''t'']
      else if c = CHR 0x0A then [CHR 0x5C, CHR ''n'']
      else if c = CHR 0x0C then [CHR 0x5C, CHR ''f'']
      else if c = CHR 0x0D then [CHR 0x5C, CHR ''r'']
      else if c = CHR 0x22 then [CHR 0x5C, CHR 0x22]
      else if c = CHR 0x5C then [CHR 0x5C, CHR 0x5C]
      else if (of_char c :: nat) < 32 then
        [CHR 0x5C, CHR ''u'', CHR ''0'', CHR ''0'',
         hex_digit ((of_char c :: nat) div 16), hex_digit ((of_char c :: nat) mod 16)]
      else [c])"

definition quote :: "string \<Rightarrow> string" where
  "quote s = CHR 0x22 # concat (map quote_char s) @ [CHR 0x22]"

fun join :: "string \<Rightarrow> string list \<Rightarrow> string" where
  "join sep [] = []"
| "join sep [x] = x"
| "join sep (x # y # ys) = x @ sep @ join sep (y # ys)"

fun serialize :: "string \<Rightarrow> json \<Rightarrow> string" where
  "serialize ind JNull = ''null''"
| "serialize ind (JBool b) = (if b then ''true'' else ''false'')"
| "serialize ind (JNum n) = n"
| "serialize ind (JStr s) = quote s"
| "serialize ind (JArr es) =
     (if es = [] then ''[]''
      else ''['' @ [CHR 0x0A] @ ind @ ''  ''
           @ join ('','' @ [CHR 0x0A] @ ind @ ''  '')
                (map (\<lambda>e. serialize (ind @ ''  '') e) es)
           @ [CHR 0x0A] @ ind @ '']'')"
| "serialize ind (JObj ps) =
     (if ps = [] then ''{}''
      else ''{'' @ [CHR 0x0A] @ ind @ ''  ''
           @ join ('','' @ [CHR 0x0A] @ ind @ ''  '')
                (map (\<lambda>p. quote (fst p) @ '': '' @ serialize (ind @ ''  '') (snd p)) ps)
           @ [CHR 0x0A] @ ind @ ''}'')"

definition JSON_stringify :: "json \<Rightarrow> string" where
  "JSON_stringify v = serialize [] v"

text \<open>
  The values of the model: an object has no key twice, and a number is a literal of the
  model.
\<close>

definition wf_number :: "string \<Rightarrow> bool" where
  "wf_number n = (n \<noteq> [] \<and> modelled_number n)"

fun wf_json :: "json \<Rightarrow> bool" where
  "wf_json (JArr es) = (\<forall>e \<in> set es. wf_json e)"
| "wf_json (JObj ps) = (distinct (map fst ps) \<and> (\<forall>p \<in> set ps. wf_json (snd p)))"
| "wf_json (JNum n) = wf_number n"
| "wf_json v = True"

definition wf_token :: "token \<Rightarrow> bool" where
  "wf_token t = (case t of TNumber n \<Rightarrow> wf_number n | _ \<Rightarrow> True)"

fun wf_frame :: "frame \<Rightarrow> bool" where
  "wf_frame (InArr es) = (\<forall>e \<in> set es. wf_json e)"
| "wf_frame (InObj ps k) = (distinct (map fst ps) \<and> (\<forall>p \<in> set ps. wf_json (snd p)))"

definition wf_pstate :: "pstate \<Rightarrow> bool" where
  "wf_pstate s =
     ((\<forall>f \<in> set (snd s). wf_frame f)
      \<and> (case fst s of Finished v \<Rightarrow> wf_json v | _ \<Rightarrow> True))"

section \<open>The scaffold tool (\<^verbatim>\<open>bin/scaffold.js\<close>)\<close>

text \<open>
  A function that does input and output takes the file system and returns it with its
  result; an exception is a result \<open>Inl e\<close>. Console output is not modelled.
\<close>

datatype cause = CauseParse parse_error | CauseType | CauseIO errno

text \<open>
  \<open>IOError e\<close> is an error of \<^verbatim>\<open>fs\<close> with the code \<open>e\<close>; \<open>JSONError\<close> the exception of
  \<^verbatim>\<open>JSON.parse\<close>; \<open>InjectionCodeError cause code\<close> the error
  \<^verbatim>\<open>Failed to parse injection code for package.json: ... Code: ${code}\<close> that \<^verbatim>\<open>injectCode\<close>
  makes from the exception \<open>cause\<close>; \<open>PropertyTypeError\<close> a \<^verbatim>\<open>TypeError\<close> of reading or
  setting a property of the manifest; \<open>UndefinedFeature\<close> the \<^verbatim>\<open>TypeError\<close> of reading a
  property of a feature that the registry does not have.
\<close>

datatype error =
    IOError errno
  | JSONError parse_error
  | InjectionCodeError cause string
  | PropertyTypeError
  | UndefinedFeature string

type_synonym 'a io = "(error + 'a) \<times> filesystem"

text \<open>
  \<^verbatim>\<open>path.join\<close> of two strings, on POSIX: the arguments that are not empty with a slash
  between them, normalised as \<^verbatim>\<open>path.normalize\<close> does. \<open>normalizeString\<close> goes through the
  segments between slashes with the segments kept so far, last first: an empty segment and
  \<^verbatim>\<open>.\<close> are dropped, \<^verbatim>\<open>..\<close> takes the segment before it away, and stays where a relative path
  has nothing before it; \<open>path_normalize\<close> puts the leading and the trailing slash back.
\<close>

fun normalizeString :: "bool \<Rightarrow> string list \<Rightarrow> string list \<Rightarrow> string list" where
  "normalizeString allowAboveRoot res [] = rev res"
| "normalizeString allowAboveRoot res (s # ss) =
     (if s = [] \<or> s = ''.'' then normalizeString allowAboveRoot res ss
      else if s = ''..'' then
        (if res \<noteq> [] \<and> hd res \<noteq> ''..'' then normalizeString allowAboveRoot (tl res) ss
         else if allowAboveRoot then normalizeString allowAboveRoot (''..'' # res) ss
         else normalizeString allowAboveRoot res ss)
      else normalizeString allowAboveRoot (s # res) ss)"

definition path_normalize :: "string \<Rightarrow> string" where
  "path_normalize p =
     (if p = [] then ''.''
      else
        (let isAbsolute = (hd p = CHR ''/'');
             trailingSeparator = (last p = CHR ''/'');
             q = join ''/'' (normalizeString (\<not> isAbsolute) [] (splitOn CHR ''/'' p))
         in if q = [] then (if isAbsolute then ''/'' else if trailingSeparator then ''./'' else ''.'')
            else (if isAbsolute then ''/'' else []) @ q @ (if trailingSeparator then ''/'' else [])))"

definition path_join :: "string \<Rightarrow> string \<Rightarrow> string" where
  "path_join a b =
     (if a = [] \<and> b = [] then ''.''
      else path_normalize (if a = [] then b else if b = [] then a else a @ ''/'' @ b))"

definition write_io :: "filesystem \<Rightarrow> string \<Rightarrow> string \<Rightarrow> bool io" where
  "write_io fs filePath d =
     (case writeFile fs (split_path filePath) d of
        Inl e \<Rightarrow> (Inl (IOError e), fs)
      | Inr fs' \<Rightarrow> (Inr True, fs'))"

subsection \<open>\<^verbatim>\<open>injectCode\<close>\<close>

text \<open>The standard string replacement, on the content read (lines 112 to 119).\<close>

definition inject_text :: "filesystem \<Rightarrow> string \<Rightarrow> string \<Rightarrow> string \<Rightarrow> string \<Rightarrow> bool io" where
  "inject_text fs filePath marker code content =
     (if includes_str content marker
      then write_io fs filePath
             (replace_str content marker (code @ [CHR 0x0A] @ ''  '' @ marker))
      else (Inr False, fs))"

text \<open>\<^verbatim>\<open>typeof v === "object"\<close> for a value that is not \<^verbatim>\<open>null\<close>.\<close>

definition is_object :: "json \<Rightarrow> bool" where
  "is_object v = (case v of JObj ps \<Rightarrow> True | JArr es \<Rightarrow> True | _ \<Rightarrow> False)"

text \<open>
  The inner \<^verbatim>\<open>try\<close> block (lines 88 to 103): \<open>Inr None\<close> when the block ends without
  returning.
\<close>

definition merge_scripts ::
  "filesystem \<Rightarrow> string \<Rightarrow> json \<Rightarrow> string \<Rightarrow> (cause + bool option) \<times> filesystem" where
  "merge_scripts fs filePath packageJson code =
     (case JSON_parse (''{'' @ code @ ''}'') of
        Inl e \<Rightarrow> (Inl (CauseParse e), fs)
      | Inr scriptsToAdd \<Rightarrow>
          if is_object scriptsToAdd then
            (case get_prop packageJson ''scripts'' of
               Inl e \<Rightarrow> (Inl CauseType, fs)
             | Inr scripts \<Rightarrow>
                (case set_prop packageJson ''scripts''
                        (JObj (assign (assign [] (spread scripts)) (spread (Some scriptsToAdd)))) of
                   Inl e \<Rightarrow> (Inl CauseType, fs)
                 | Inr packageJson' \<Rightarrow>
                    (case writeFile fs (split_path filePath)
                            (JSON_stringify packageJson' @ [CHR 0x0A]) of
                       Inl e \<Rightarrow> (Inl (CauseIO e), fs)
                     | Inr fs' \<Rightarrow> (Inr (Some True), fs'))))
          else (Inr None, fs))"

text \<open>The test for the special handling of the manifest (lines 72 to 75).\<close>

definition scripts_style :: "string \<Rightarrow> string \<Rightarrow> bool" where
  "scripts_style filePath marker =
     (endsWith filePath ''package.json'' \<and> includes_str marker ''WORKERS_SCRIPTS'')"

text \<open>
  The body of the outer \<^verbatim>\<open>try\<close> block, after the file was read (lines 71 to 119). The
  error \<open>JSONError OutsideModel\<close> stands for a manifest that the model of JSON does not
  cover, not for an exception of the program.
\<close>

definition inject_existing :: "filesystem \<Rightarrow> string \<Rightarrow> string \<Rightarrow> string \<Rightarrow> string \<Rightarrow> bool io" where
  "inject_existing fs filePath marker code content =
     (if scripts_style filePath marker then
        (let content' = strip_marker_lines marker content in
         case JSON_parse content' of
           Inl e \<Rightarrow> (Inl (JSONError e), fs)
         | Inr packageJson \<Rightarrow>
            (case merge_scripts fs filePath packageJson code of
               (Inl c, fs') \<Rightarrow> (Inl (InjectionCodeError c code), fs')
             | (Inr (Some b), fs') \<Rightarrow> (Inr b, fs')
             | (Inr None, fs') \<Rightarrow> inject_text fs' filePath marker code content'))
      else inject_text fs filePath marker code content)"

text \<open>The \<^verbatim>\<open>catch\<close> clause of the outer \<^verbatim>\<open>try\<close> (lines 120 to 129).\<close>

definition inject_catch :: "filesystem \<Rightarrow> string \<Rightarrow> string \<Rightarrow> string \<Rightarrow> error \<Rightarrow> bool io" where
  "inject_catch fs filePath marker code err =
     (if err = IOError ENOENT then
        (case mkdir_recursive fs (butlast (split_path filePath)) of
           Inl e \<Rightarrow> (Inl (IOError e), fs)
         | Inr fs' \<Rightarrow>
             write_io fs' filePath (marker @ [CHR 0x0A] @ code @ [CHR 0x0A]))
      else (Inl err, fs))"

definition injectCode :: "filesystem \<Rightarrow> string \<Rightarrow> string \<Rightarrow> string \<Rightarrow> bool io" where
  "injectCode fs filePath marker code =
     (case (case readFile fs (split_path filePath) of
              Inl e \<Rightarrow> (Inl (IOError e), fs)
            | Inr content \<Rightarrow> inject_existing fs filePath marker code content) of
        (Inl err, fs') \<Rightarrow> inject_catch fs' filePath marker code err
      | (Inr b, fs') \<Rightarrow> (Inr b, fs'))"

subsection \<open>\<^verbatim>\<open>mergePackageJson\<close>\<close>

text \<open>The truth value of a parsed value; \<^verbatim>\<open>undefined\<close> is \<open>None\<close>.\<close>

definition truthy :: "json option \<Rightarrow> bool" where
  "truthy v =
     (case v of
        None \<Rightarrow> False
      | Some JNull \<Rightarrow> False
      | Some (JBool b) \<Rightarrow> b
      | Some (JNum n) \<Rightarrow> n \<noteq> ''0''
      | Some (JStr cs) \<Rightarrow> cs \<noteq> []
      | Some _ \<Rightarrow> True)"

text \<open>\<^verbatim>\<open>{ ...(v || {}), ...deps }\<close>\<close>

definition merged_section :: "json option \<Rightarrow> (string \<times> json) list \<Rightarrow> json" where
  "merged_section v deps =
     JObj (assign (assign [] (if truthy v then spread v else [])) deps)"

definition merge_dependencies ::
  "json \<Rightarrow> (string \<times> json) list \<Rightarrow> (string \<times> json) list \<Rightarrow> js_error + json" where
  "merge_dependencies packageJson dependencies devDependencies =
     (case get_prop packageJson ''dependencies'' of
        Inl e \<Rightarrow> Inl e
      | Inr d \<Rightarrow>
         (case set_prop packageJson ''dependencies'' (merged_section d dependencies) of
            Inl e \<Rightarrow> Inl e
          | Inr pj \<Rightarrow>
              if devDependencies \<noteq> [] then
                (case get_prop pj ''devDependencies'' of
                   Inl e \<Rightarrow> Inl e
                 | Inr dd \<Rightarrow> set_prop pj ''devDependencies'' (merged_section dd devDependencies))
              else Inr pj))"

text \<open>The \<^verbatim>\<open>catch\<close> clause reports the error and throws it again.\<close>

definition mergePackageJson ::
  "filesystem \<Rightarrow> string \<Rightarrow> (string \<times> json) list \<Rightarrow> (string \<times> json) list
   \<Rightarrow> unit io" where
  "mergePackageJson fs targetDir dependencies devDependencies =
     (let packageJsonPath = path_join targetDir ''package.json'' in
      case readFile fs (split_path packageJsonPath) of
        Inl e \<Rightarrow> (Inl (IOError e), fs)
      | Inr content \<Rightarrow>
         (case JSON_parse content of
            Inl e \<Rightarrow> (Inl (JSONError e), fs)
          | Inr packageJson \<Rightarrow>
             (case merge_dependencies packageJson dependencies devDependencies of
                Inl e \<Rightarrow> (Inl PropertyTypeError, fs)
              | Inr pj \<Rightarrow>
                 (case writeFile fs (split_path packageJsonPath)
                         (JSON_stringify pj @ [CHR 0x0A]) of
                    Inl e \<Rightarrow> (Inl (IOError e), fs)
                  | Inr fs' \<Rightarrow> (Inr (), fs')))))"

subsection \<open>\<^verbatim>\<open>cleanupMarkers\<close>\<close>

text \<open>
  The loop over the markers (lines 234 to 241 and 259 to 270): the content with the
  lines of each marker removed in turn, and whether any marker matched.
\<close>

fun remove_markers :: "string list \<Rightarrow> string \<Rightarrow> bool \<Rightarrow> string \<times> bool" where
  "remove_markers [] content modified = (content, modified)"
| "remove_markers (marker # ms) content modified =
     (if test_marker_line marker content
      then remove_markers ms (strip_marker_lines marker content) True
      else remove_markers ms content modified)"

text \<open>A write inside the \<^verbatim>\<open>try\<close> of the loop body: a failure skips the file.\<close>

definition write_or_skip :: "filesystem \<Rightarrow> string \<Rightarrow> string \<Rightarrow> filesystem" where
  "write_or_skip fs file d =
     (case writeFile fs (split_path file) d of Inl e \<Rightarrow> fs | Inr fs' \<Rightarrow> fs')"

text \<open>
  The body of the loop over the files (lines 221 to 280). A manifest that the model of
  JSON does not cover is written as one that does not parse.
\<close>

definition cleanup_file :: "string list \<Rightarrow> filesystem \<Rightarrow> string \<Rightarrow> filesystem" where
  "cleanup_file injectedMarkers fs file =
     (if endsWith file ''.env.example'' then fs
      else
        (case readFile fs (split_path file) of
           Inl e \<Rightarrow> fs
         | Inr content0 \<Rightarrow>
            (case remove_markers injectedMarkers content0 False of
               (content, modified) \<Rightarrow>
                 if endsWith file ''package.json'' then
                   (if modified then
                      (case JSON_parse content of
                         Inr packageJson \<Rightarrow>
                           (case writeFile fs (split_path file)
                                   (JSON_stringify packageJson @ [CHR 0x0A]) of
                              Inr fs' \<Rightarrow> fs'
                            | Inl e \<Rightarrow> write_or_skip fs file content)
                       | Inl e \<Rightarrow> write_or_skip fs file content)
                    else fs)
                 else (if modified then write_or_skip fs file content else fs))))"

text \<open>
  \<open>filesToClean\<close> is what \<^verbatim>\<open>glob\<close> returns for \<^verbatim>\<open>**/*.{ts,js,json,env*}\<close> under the target
  directory, \<^verbatim>\<open>node_modules\<close> left out; \<^verbatim>\<open>glob\<close> is a library and a parameter here.
\<close>

definition cleanupMarkers ::
  "(filesystem \<Rightarrow> string \<Rightarrow> string list) \<Rightarrow> filesystem \<Rightarrow> string \<Rightarrow> string list \<Rightarrow> filesystem" where
  "cleanupMarkers glob fs targetDir injectedMarkers =
     foldl (cleanup_file injectedMarkers) fs (glob fs targetDir)"

subsection \<open>The feature registry\<close>

record injection =
  inj_file :: string
  inj_marker :: string
  inj_code :: string

text \<open>A field that a feature of the registry may lack is an option.\<close>

record feature =
  feat_name :: string
  feat_files :: "string list option"
  feat_dependencies :: "(string \<times> json) list option"
  feat_devDependencies :: "(string \<times> json) list option"
  feat_injections :: "injection list option"

type_synonym registry = "(string \<times> feature) list"

subsection \<open>\<^verbatim>\<open>scaffold\<close>\<close>

text \<open>
  The parts of the run that are not the subject here are parameters: the copy of the
  base template, the substitution of the template variables, the copy of a feature's
  files, and the functions of the libraries \<^verbatim>\<open>glob\<close> and \<^verbatim>\<open>path\<close>.
\<close>

record collaborators =
  copyDirectory :: "filesystem \<Rightarrow> string \<Rightarrow> string \<Rightarrow> unit io"
  processAllTemplateVariables :: "filesystem \<Rightarrow> string \<Rightarrow> string \<Rightarrow> unit io"
  copyModuleFiles :: "filesystem \<Rightarrow> string \<Rightarrow> string \<Rightarrow> string list \<Rightarrow> unit io"
  glob_markers :: "filesystem \<Rightarrow> string \<Rightarrow> string list"
  path_resolve :: "string \<Rightarrow> string \<Rightarrow> string"
  path_basename :: "string \<Rightarrow> string"

record locations =
  currentDir :: string
  TEMPLATE_ROOT :: string
  BASE_TEMPLATE_DIR :: string
  MODULES_DIR :: string

text \<open>What the loop over the selected features collects (lines 428 to 430).\<close>

record collected =
  allDependencies :: "(string \<times> json) list"
  allDevDependencies :: "(string \<times> json) list"
  injectedMarkers :: "string list"

text \<open>\<^verbatim>\<open>Set.prototype.add\<close>; a set keeps its elements in the order of insertion.\<close>

definition set_add :: "string \<Rightarrow> string list \<Rightarrow> string list" where
  "set_add m ms = (if m \<in> set ms then ms else ms @ [m])"

text \<open>The loop over the injections of a feature (lines 454 to 467).\<close>

fun apply_injections ::
  "filesystem \<Rightarrow> string \<Rightarrow> string list \<Rightarrow> injection list \<Rightarrow> (string list) io" where
  "apply_injections fs targetDir markers [] = (Inr markers, fs)"
| "apply_injections fs targetDir markers (i # is) =
     (case injectCode fs (path_join targetDir (inj_file i)) (inj_marker i) (inj_code i) of
        (Inl e, fs') \<Rightarrow> (Inl e, fs')
      | (Inr injected, fs') \<Rightarrow>
          apply_injections fs' targetDir
            (if injected then set_add (inj_marker i) markers else markers) is)"

text \<open>The collection of the dependencies of a feature (lines 445 to 451).\<close>

definition collect_dependencies :: "collected \<Rightarrow> feature \<Rightarrow> collected" where
  "collect_dependencies acc f =
     acc\<lparr>allDependencies :=
           (case feat_dependencies f of
              Some d \<Rightarrow> Object_assign (allDependencies acc) d
            | None \<Rightarrow> allDependencies acc),
         allDevDependencies :=
           (case feat_devDependencies f of
              Some d \<Rightarrow> Object_assign (allDevDependencies acc) d
            | None \<Rightarrow> allDevDependencies acc)\<rparr>"

text \<open>The copy of the files of a feature (lines 440 to 443).\<close>

definition copy_feature_files ::
  "collaborators \<Rightarrow> locations \<Rightarrow> string \<Rightarrow> filesystem \<Rightarrow> feature \<Rightarrow> unit io" where
  "copy_feature_files X loc targetDir fs f =
     (case feat_files f of
        None \<Rightarrow> (Inr (), fs)
      | Some files \<Rightarrow>
          if files \<noteq> [] then copyModuleFiles X fs (MODULES_DIR loc) targetDir files
          else (Inr (), fs))"

text \<open>The body of the loop over the selected features (lines 437 to 467).\<close>

definition apply_feature ::
  "collaborators \<Rightarrow> locations \<Rightarrow> registry \<Rightarrow> string \<Rightarrow> filesystem \<Rightarrow> collected \<Rightarrow> string
   \<Rightarrow> collected io" where
  "apply_feature X loc featuresConfig targetDir fs acc featureKey =
     (case map_of featuresConfig featureKey of
        None \<Rightarrow> (Inl (UndefinedFeature featureKey), fs)
      | Some f \<Rightarrow>
         (case copy_feature_files X loc targetDir fs f of
            (Inl e, fs1) \<Rightarrow> (Inl e, fs1)
          | (Inr u, fs1) \<Rightarrow>
             (case apply_injections fs1 targetDir (injectedMarkers acc)
                     (case feat_injections f of None \<Rightarrow> [] | Some is \<Rightarrow> is) of
                (Inl e, fs2) \<Rightarrow> (Inl e, fs2)
              | (Inr ms, fs2) \<Rightarrow>
                  (Inr ((collect_dependencies acc f)\<lparr>injectedMarkers := ms\<rparr>), fs2))))"

fun apply_features ::
  "collaborators \<Rightarrow> locations \<Rightarrow> registry \<Rightarrow> string \<Rightarrow> filesystem \<Rightarrow> collected \<Rightarrow> string list
   \<Rightarrow> collected io" where
  "apply_features X loc featuresConfig targetDir fs acc [] = (Inr acc, fs)"
| "apply_features X loc featuresConfig targetDir fs acc (featureKey # ks) =
     (case apply_feature X loc featuresConfig targetDir fs acc featureKey of
        (Inl e, fs') \<Rightarrow> (Inl e, fs')
      | (Inr acc', fs') \<Rightarrow> apply_features X loc featuresConfig targetDir fs' acc' ks)"

text \<open>
  The check of the project name that the prompt makes (lines 313 to 328): the name is
  accepted or asked again. The name of an npm package is
  \<^verbatim>\<open>^(@[a-z0-9-~][a-z0-9-._~]*\/)?[a-z0-9-~][a-z0-9-._~]*$\<close>.
\<close>

definition name_start :: "char \<Rightarrow> bool" where
  "name_start c =
     ((97 \<le> (of_char c :: nat) \<and> (of_char c :: nat) \<le> 122) \<or> is_digit c
      \<or> c = CHR ''-'' \<or> c = CHR ''~'')"

definition name_char :: "char \<Rightarrow> bool" where
  "name_char c = (name_start c \<or> c = CHR ''.'' \<or> c = CHR ''_'')"

definition name_part :: "string \<Rightarrow> bool" where
  "name_part s = (case s of [] \<Rightarrow> False | c # cs \<Rightarrow> name_start c \<and> list_all name_char cs)"

definition package_name :: "string \<Rightarrow> bool" where
  "package_name s =
     (case s of
        [] \<Rightarrow> False
      | c # cs \<Rightarrow>
          if c = CHR ''@'' then
            name_part (takeWhile (\<lambda>x. x \<noteq> CHR ''/'') cs)
            \<and> dropWhile (\<lambda>x. x \<noteq> CHR ''/'') cs \<noteq> []
            \<and> name_part (tl (dropWhile (\<lambda>x. x \<noteq> CHR ''/'') cs))
          else name_part s)"

definition validate :: "string \<Rightarrow> bool" where
  "validate input =
     (if input = [] \<or> list_all is_space input then False
      else if input = ''.'' then True
      else package_name input)"

datatype outcome = Exited nat | Thrown error | Completed

text \<open>
  The check of the target directory (lines 346 to 368): \<open>Some\<close> outcome when the run ends
  there, \<open>None\<close> when it goes on.
\<close>

definition target_missing :: "filesystem \<Rightarrow> string \<Rightarrow> errno \<Rightarrow> outcome option \<times> filesystem" where
  "target_missing fs targetDir e =
     (if e = ENOENT then
        (case mkdir_recursive fs (split_path targetDir) of
           Inl e' \<Rightarrow> (Some (Thrown (IOError e')), fs)
         | Inr fs' \<Rightarrow> (None, fs'))
      else (Some (Thrown (IOError e)), fs))"

definition check_target :: "filesystem \<Rightarrow> string \<Rightarrow> outcome option \<times> filesystem" where
  "check_target fs targetDir =
     (case stat fs (split_path targetDir) of
        Inl e \<Rightarrow> target_missing fs targetDir e
      | Inr IsFile \<Rightarrow> (None, fs)
      | Inr IsDirectory \<Rightarrow>
         (case readdir fs (split_path targetDir) of
            Inl e \<Rightarrow> target_missing fs targetDir e
          | Inr entries \<Rightarrow> if entries \<noteq> [] then (Some (Exited 1), fs) else (None, fs)))"

text \<open>The target directory and the project name (lines 336 to 344).\<close>

definition target_of :: "collaborators \<Rightarrow> locations \<Rightarrow> string \<Rightarrow> string \<times> string" where
  "target_of X loc answer =
     (if answer = ''.'' then (currentDir loc, path_basename X (currentDir loc))
      else (path_resolve X (currentDir loc) answer, answer))"

text \<open>The steps that write the project, from the copy of the base template on (lines 417 to 484).\<close>

definition build ::
  "collaborators \<Rightarrow> locations \<Rightarrow> registry \<Rightarrow> string \<Rightarrow> string \<Rightarrow> string list \<Rightarrow> filesystem
   \<Rightarrow> outcome \<times> filesystem" where
  "build X loc featuresConfig targetDir projectName selectedFeatures fs =
     (case copyDirectory X fs (BASE_TEMPLATE_DIR loc) targetDir of
        (Inl e, fs1) \<Rightarrow> (Thrown e, fs1)
      | (Inr u, fs1) \<Rightarrow>
         (case processAllTemplateVariables X fs1 targetDir projectName of
            (Inl e, fs2) \<Rightarrow> (Thrown e, fs2)
          | (Inr u, fs2) \<Rightarrow>
             (case apply_features X loc featuresConfig targetDir fs2
                     \<lparr>allDependencies = [], allDevDependencies = [], injectedMarkers = []\<rparr>
                     selectedFeatures of
                (Inl e, fs3) \<Rightarrow> (Thrown e, fs3)
              | (Inr acc, fs3) \<Rightarrow>
                 (case (if allDependencies acc \<noteq> [] \<or> allDevDependencies acc \<noteq> []
                        then mergePackageJson fs3 targetDir
                               (allDependencies acc) (allDevDependencies acc)
                        else (Inr (), fs3)) of
                    (Inl e, fs4) \<Rightarrow> (Thrown e, fs4)
                  | (Inr u, fs4) \<Rightarrow>
                      (Completed,
                       if injectedMarkers acc \<noteq> []
                       then cleanupMarkers (glob_markers X) fs4 targetDir (injectedMarkers acc)
                       else fs4)))))"

text \<open>
  \<^verbatim>\<open>scaffold\<close>, given the registry as loaded and the answers to the prompts: the project
  name, which \<open>validate\<close> accepted, and the selected features. The installation of the
  dependencies that follows is not modelled.
\<close>

definition scaffold ::
  "collaborators \<Rightarrow> locations \<Rightarrow> registry \<Rightarrow> string \<Rightarrow> string list \<Rightarrow> filesystem
   \<Rightarrow> outcome \<times> filesystem" where
  "scaffold X loc featuresConfig answer selectedFeatures fs =
     (if startsWith (currentDir loc) (TEMPLATE_ROOT loc) then (Exited 1, fs)
      else
        (case target_of X loc answer of
           (targetDir, projectName) \<Rightarrow>
             (case check_target fs targetDir of
                (Some out, fs') \<Rightarrow> (out, fs')
              | (None, fs') \<Rightarrow>
                  build X loc featuresConfig targetDir projectName selectedFeatures fs')))"

text \<open>The last lines of the program: an error of \<^verbatim>\<open>scaffold\<close> ends the process with status 1.\<close>

definition main ::
  "collaborators \<Rightarrow> locations \<Rightarrow> registry \<Rightarrow> string \<Rightarrow> string list \<Rightarrow> filesystem
   \<Rightarrow> outcome \<times> filesystem" where
  "main X loc featuresConfig answer selectedFeatures fs =
     (case scaffold X loc featuresConfig answer selectedFeatures fs of
        (Thrown e, fs') \<Rightarrow> (Exited 1, fs')
      | r \<Rightarrow> r)"

section \<open>Notions for the properties\<close>

subsection \<open>Dependencies\<close>

text \<open>The packages that a section of a feature declares, with their versions.\<close>

definition declared :: "(string \<times> json) list option \<Rightarrow> string \<rightharpoonup> json" where
  "declared d = (case d of None \<Rightarrow> Map.empty | Some ps \<Rightarrow> map_of (rev ps))"

text \<open>Those of them that \<open>Object_assign\<close> sets on its target.\<close>

definition assigned :: "(string \<times> json) list option \<Rightarrow> string \<rightharpoonup> json" where
  "assigned d = declared d |` (- {''__proto__''})"

text \<open>Two sections agree when no package has two versions in them.\<close>

definition agree :: "(string \<times> json) list option \<Rightarrow> (string \<times> json) list option \<Rightarrow> bool" where
  "agree d d' = (\<forall>p v v'. declared d p = Some v \<and> declared d' p = Some v' \<longrightarrow> v = v')"

text \<open>The features of the selected keys, in the registry.\<close>

definition features_of :: "registry \<Rightarrow> string list \<Rightarrow> feature list" where
  "features_of reg ks = concat (map (\<lambda>k. case map_of reg k of None \<Rightarrow> [] | Some f \<Rightarrow> [f]) ks)"

subsection \<open>Replacement texts\<close>

text \<open>A replacement text has a pattern when a dollar sign stands before \<^verbatim>\<open>$\<close>, \<^verbatim>\<open>&\<close>, \<^verbatim>\<open>`\<close> or \<^verbatim>\<open>'\<close>.\<close>

definition special :: "char \<Rightarrow> bool" where
  "special d = (d = CHR ''$'' \<or> d = CHR ''&'' \<or> d = CHR 0x60 \<or> d = CHR 0x27)"

fun has_pattern :: "string \<Rightarrow> bool" where
  "has_pattern [] = False"
| "has_pattern [c] = False"
| "has_pattern (c # d # r) = ((c = CHR ''$'' \<and> special d) \<or> has_pattern (d # r))"

text \<open>What a marker is replaced with: the code, a newline, two spaces and the marker.\<close>

definition replacement :: "string \<Rightarrow> string \<Rightarrow> string" where
  "replacement code marker = code @ [CHR 0x0A] @ ''  '' @ marker"

text \<open>The codes of several injections and the text that they leave before the marker.\<close>

definition stacked :: "string list \<Rightarrow> string" where
  "stacked cs = concat (map (\<lambda>c. c @ [CHR 0x0A] @ ''  '') cs)"

subsection \<open>Lines and markers\<close>

text \<open>The lines of a text, between the line terminators.\<close>

fun split_lines :: "string \<Rightarrow> string list" where
  "split_lines [] = [[]]"
| "split_lines (c # cs) =
     (if is_line_terminator c then [] # split_lines cs
      else (c # hd (split_lines cs)) # tl (split_lines cs))"

text \<open>\<^verbatim>\<open>String.prototype.trim\<close>\<close>

definition trim :: "string \<Rightarrow> string" where
  "trim s = rev (dropWhile is_space (rev (dropWhile is_space s)))"

text \<open>
  A marker in the sense of the data model: one line, not empty, with no white space at
  its ends.
\<close>

definition wf_marker :: "string \<Rightarrow> bool" where
  "wf_marker m =
     (m \<noteq> [] \<and> \<not> is_space (hd m) \<and> \<not> is_space (last m)
      \<and> (\<forall>c \<in> set m. \<not> is_line_terminator c))"

text \<open>The lines of a text that are the marker \<open>m\<close>, white space at their ends apart.\<close>

definition marker_lines :: "string \<Rightarrow> string \<Rightarrow> string list" where
  "marker_lines m s = filter (\<lambda>l. trim l = m) (split_lines s)"

text \<open>The end of a match is the end of a line.\<close>

definition at_line_end :: "string \<Rightarrow> bool" where
  "at_line_end r = (case r of [] \<Rightarrow> True | c # cs \<Rightarrow> is_line_terminator c)"

text \<open>A marker of the grammar starts with \<^verbatim>\<open>//\<close> or \<^verbatim>\<open>#\<close>.\<close>

definition comment_char :: "char \<Rightarrow> bool" where
  "comment_char c = (c = CHR ''/'' \<or> c = CHR ''#'')"

definition comment_marker :: "string \<Rightarrow> bool" where
  "comment_marker m = (case m of [] \<Rightarrow> False | c # cs \<Rightarrow> comment_char c)"

definition comment_line :: "string \<Rightarrow> bool" where
  "comment_line l = comment_marker (dropWhile is_space l)"

text \<open>
  \<open>scan b s\<close> runs over a text; \<open>b\<close> tells whether the line had white space only so far.
  The result is \<open>None\<close> when a line starts, white space apart, with \<^verbatim>\<open>/\<close> or \<^verbatim>\<open>#\<close>.
\<close>

fun scan :: "bool \<Rightarrow> string \<Rightarrow> bool option" where
  "scan b [] = Some b"
| "scan b (c # cs) =
     (if is_line_terminator c then scan True cs
      else if b then
        (if is_space c then scan True cs
         else if comment_char c then None
         else scan False cs)
      else scan False cs)"

text \<open>A text that starts a line with a character that opens no comment and ends inside a line.\<close>

definition solid :: "string \<Rightarrow> bool" where
  "solid x = (\<forall>b. scan b x = Some False)"

text \<open>The lines of the file at a path that are the marker \<open>m\<close>; none where there is no file.\<close>

definition marker_lines_at :: "filesystem \<Rightarrow> path \<Rightarrow> string \<Rightarrow> string list" where
  "marker_lines_at fs p m =
     (case node_at fs p of Some (File c) \<Rightarrow> marker_lines m c | _ \<Rightarrow> [])"

subsection \<open>The injections that a run applied\<close>

text \<open>
  The markers of the injections that returned \<open>applied = true\<close>, in the order of the run:
  \<open>applied_markers\<close> follows the loop over the injections of a feature, \<open>applied_in_run\<close>
  the loop over the selected features.
\<close>

fun applied_markers :: "filesystem \<Rightarrow> string \<Rightarrow> injection list \<Rightarrow> string list" where
  "applied_markers fs targetDir [] = []"
| "applied_markers fs targetDir (i # js) =
     (case injectCode fs (path_join targetDir (inj_file i)) (inj_marker i) (inj_code i) of
        (Inl e, fs') \<Rightarrow> []
      | (Inr injected, fs') \<Rightarrow>
          (if injected then [inj_marker i] else []) @ applied_markers fs' targetDir js)"

fun applied_in_run ::
  "collaborators \<Rightarrow> locations \<Rightarrow> registry \<Rightarrow> string \<Rightarrow> filesystem \<Rightarrow> collected \<Rightarrow> string list
   \<Rightarrow> string list" where
  "applied_in_run X loc featuresConfig targetDir fs acc [] = []"
| "applied_in_run X loc featuresConfig targetDir fs acc (featureKey # ks) =
     (case map_of featuresConfig featureKey of
        None \<Rightarrow> []
      | Some f \<Rightarrow>
         (case copy_feature_files X loc targetDir fs f of
            (Inl e, fs1) \<Rightarrow> []
          | (Inr u, fs1) \<Rightarrow>
              applied_markers fs1 targetDir
                (case feat_injections f of None \<Rightarrow> [] | Some js \<Rightarrow> js)
              @ (case apply_feature X loc featuresConfig targetDir fs acc featureKey of
                   (Inl e, fs') \<Rightarrow> []
                 | (Inr acc', fs') \<Rightarrow> applied_in_run X loc featuresConfig targetDir fs' acc' ks)))"

section \<open>Properties of the file system\<close>

lemma node_at_update:
  "node_at (AList.update p n fs) q = (if q = p \<and> q \<noteq> [] then Some n else node_at fs q)"
  by (simp add: node_at_def update_conv')

lemma node_at_root: "node_at fs [] = Some Dir"
  by (simp add: node_at_def)

lemma readFile_writeFile: "writeFile fs p d = Inr fs' \<Longrightarrow> readFile fs' p = Inr d"
  by (auto simp: writeFile_def readFile_def node_at_update
           split: option.splits node.splits if_splits)
     (auto simp: node_at_def)

lemma writeFile_other:
  "writeFile fs p d = Inr fs' \<Longrightarrow> q \<noteq> p \<Longrightarrow> node_at fs' q = node_at fs q"
  by (auto simp: writeFile_def node_at_update split: option.splits node.splits if_splits)

lemma writeFile_existing:
  "readFile fs p = Inr c \<Longrightarrow> writeFile fs p d = Inr (AList.update p (File d) fs)"
  by (auto simp: writeFile_def readFile_def split: option.splits node.splits)

lemma mkdirs_other: "q \<notin> set qs \<Longrightarrow> node_at (mkdirs fs qs) q = node_at fs q"
  by (induction qs arbitrary: fs) (auto simp: node_at_update)

lemma mkdirs_keeps: "node_at fs q = Some n \<Longrightarrow> node_at (mkdirs fs qs) q = Some n"
proof (induction qs arbitrary: fs)
  case Nil
  then show ?case by simp
next
  case (Cons a qs)
  have "node_at (if node_at fs a = None then AList.update a Dir fs else fs) q = Some n"
    using Cons.prems by (auto simp: node_at_update)
  then show ?case using Cons.IH by simp
qed

lemma mkdirs_dir:
  "q \<in> set qs \<Longrightarrow> \<not> is_file_node (node_at fs q) \<Longrightarrow> node_at (mkdirs fs qs) q = Some Dir"
proof (induction qs arbitrary: fs)
  case Nil
  then show ?case by simp
next
  case (Cons a qs)
  let ?fs = "if node_at fs a = None then AList.update a Dir fs else fs"
  show ?case
  proof (cases "node_at fs q")
    case None
    then have nonroot: "q \<noteq> []" by (auto simp: node_at_def)
    show ?thesis
    proof (cases "q = a")
      case True
      with None nonroot have "node_at ?fs q = Some Dir"
        by (simp add: node_at_update)
      then have "node_at (mkdirs ?fs qs) q = Some Dir" by (rule mkdirs_keeps)
      then show ?thesis by simp
    next
      case False
      with Cons.prems have "q \<in> set qs" by simp
      moreover have "\<not> is_file_node (node_at ?fs q)"
        using None False by (auto simp: node_at_update is_file_node_def)
      ultimately have "node_at (mkdirs ?fs qs) q = Some Dir" by (rule Cons.IH)
      then show ?thesis by simp
    qed
  next
    case (Some n)
    with Cons.prems have "node_at fs q = Some Dir"
      by (cases n) (auto simp: is_file_node_def)
    then have "node_at (mkdirs fs (a # qs)) q = Some Dir" by (rule mkdirs_keeps)
    then show ?thesis .
  qed
qed

text \<open>What \<^verbatim>\<open>ENOENT\<close> on reading says: nothing is at the path, and no ancestor is a file.\<close>

lemma readFile_ENOENT:
  assumes "readFile fs p = Inl ENOENT"
  shows "node_at fs p = None" and "\<not> under_file fs p" and "p \<noteq> []"
  using assms
  by (auto simp: readFile_def missing_def node_at_def split: option.splits node.splits if_splits)

lemma prefixes_butlast_subset:
  assumes "p \<noteq> []"
  shows "set (prefixes (butlast p)) \<subseteq> set (butlast (prefixes p))"
proof -
  from assms have "p = butlast p @ [last p]" by simp
  then have "prefixes p = prefixes (butlast p) @ [p]"
    by (metis prefixes_snoc)
  then show ?thesis by simp
qed

lemma proper_prefix_not_file:
  assumes "\<not> under_file fs p" and "p \<noteq> []" and "q \<in> set (prefixes (butlast p))"
  shows "\<not> is_file_node (node_at fs q)"
  using assms prefixes_butlast_subset [of p]
  by (auto simp: under_file_def list_ex_iff)

lemma mkdir_parent:
  assumes "readFile fs p = Inl ENOENT"
  shows "mkdir_recursive fs (butlast p) = Inr (mkdirs fs (prefixes (butlast p)))"
proof -
  from assms have nf: "\<not> under_file fs p" and ne: "p \<noteq> []"
    by (rule readFile_ENOENT)+
  have "butlast p \<in> set (prefixes (butlast p))" by simp
  with nf ne have a: "\<not> is_file_node (node_at fs (butlast p))"
    by (rule proper_prefix_not_file)
  have "\<And>q. q \<in> set (butlast (prefixes (butlast p))) \<Longrightarrow> q \<in> set (prefixes (butlast p))"
    by (rule in_set_butlastD)
  then have b: "\<not> under_file fs (butlast p)"
    using proper_prefix_not_file [OF nf ne]
    by (auto simp: under_file_def list_ex_iff)
  from a b show ?thesis by (simp add: mkdir_recursive_def)
qed

lemma not_in_prefixes_butlast: "p \<noteq> [] \<Longrightarrow> p \<notin> set (prefixes (butlast p))"
proof
  assume "p \<noteq> []" and "p \<in> set (prefixes (butlast p))"
  then have "prefix p (butlast p)" by (simp add: in_set_prefixes)
  then have "length p \<le> length (butlast p)" by (rule prefix_length_le)
  with \<open>p \<noteq> []\<close> show False by (simp add: length_greater_0_conv [symmetric] del: length_greater_0_conv)
qed

lemma create_missing:
  assumes miss: "readFile fs p = Inl ENOENT"
  defines "fs1 \<equiv> mkdirs fs (prefixes (butlast p))"
  shows "writeFile fs1 p d = Inr (AList.update p (File d) fs1)"
    and "\<forall>q \<in> set (prefixes (butlast p)). node_at (AList.update p (File d) fs1) q = Some Dir"
    and "\<forall>q. q \<notin> set (prefixes p) \<longrightarrow> node_at (AList.update p (File d) fs1) q = node_at fs q"
proof -
  from miss have none: "node_at fs p = None" and nf: "\<not> under_file fs p" and ne: "p \<noteq> []"
    by (rule readFile_ENOENT)+
  have notin: "p \<notin> set (prefixes (butlast p))" using ne by (rule not_in_prefixes_butlast)
  then have a: "node_at fs1 p = None"
    using none by (simp add: fs1_def mkdirs_other)
  have dirs: "node_at fs1 q = Some Dir" if "q \<in> set (prefixes (butlast p))" for q
    unfolding fs1_def using that proper_prefix_not_file [OF nf ne that] by (rule mkdirs_dir)
  then have b: "node_at fs1 (butlast p) = Some Dir" by simp
  from a b show "writeFile fs1 p d = Inr (AList.update p (File d) fs1)"
    by (simp add: writeFile_def)
  show "\<forall>q \<in> set (prefixes (butlast p)). node_at (AList.update p (File d) fs1) q = Some Dir"
    using dirs notin by (auto simp: node_at_update)
  show "\<forall>q. q \<notin> set (prefixes p) \<longrightarrow> node_at (AList.update p (File d) fs1) q = node_at fs q"
  proof (intro allI impI)
    fix q assume q: "q \<notin> set (prefixes p)"
    then have "q \<noteq> p" by auto
    moreover have "q \<notin> set (prefixes (butlast p))"
      using q by (auto simp: in_set_prefixes dest: prefix_order.trans [OF _ prefixeq_butlast])
    ultimately show "node_at (AList.update p (File d) fs1) q = node_at fs q"
      by (simp add: node_at_update fs1_def mkdirs_other)
  qed
qed

section \<open>Injection into a file that does not exist\<close>

text \<open>
  Claim C5. When the file at the path does not exist (reading it fails with \<^verbatim>\<open>ENOENT\<close>),
  \<open>injectCode\<close> creates the directories above it and the file, returns \<open>applied = true\<close>,
  and the file holds the marker line followed by the code, each ended by a newline.
  Nothing else in the file system changes.
\<close>

theorem injectCode_creates_missing_file:
  assumes "readFile fs (split_path filePath) = Inl ENOENT"
  shows "\<exists>fs'. injectCode fs filePath marker code = (Inr True, fs')
           \<and> readFile fs' (split_path filePath) = Inr (marker @ [CHR 0x0A] @ code @ [CHR 0x0A])
           \<and> (\<forall>d \<in> set (prefixes (butlast (split_path filePath))). node_at fs' d = Some Dir)
           \<and> (\<forall>q. q \<notin> set (prefixes (split_path filePath)) \<longrightarrow> node_at fs' q = node_at fs q)"
proof -
  let ?p = "split_path filePath"
  let ?d = "marker @ [CHR 0x0A] @ code @ [CHR 0x0A]"
  let ?fs1 = "mkdirs fs (prefixes (butlast ?p))"
  let ?fs' = "AList.update ?p (File ?d) ?fs1"
  note c = create_missing [OF assms, of ?d]
  have w: "writeFile ?fs1 ?p ?d = Inr ?fs'" by (rule c(1))
  have "injectCode fs filePath marker code = (Inr True, ?fs')"
    using assms w by (simp add: injectCode_def inject_catch_def mkdir_parent write_io_def)
  moreover have "readFile ?fs' ?p = Inr ?d" using w by (rule readFile_writeFile)
  ultimately show ?thesis using c(2) c(3) by blast
qed

theorem injectCode_creates_missing_file_witness:
  "readFile [([''p''], Dir)] (split_path ''/p/cfg/.env.example'') = Inl ENOENT
   \<and> injectCode [([''p''], Dir)] ''/p/cfg/.env.example'' ''# INJECT:ENV'' ''KEY=1''
       = (Inr True, [([''p''], Dir), ([''p'', ''cfg''], Dir),
                     ([''p'', ''cfg'', ''.env.example''], File (''# INJECT:ENV'' @ [CHR 0x0A] @ ''KEY=1'' @ [CHR 0x0A]))])"
proof -
  have h: "readFile [([''p''], Dir)] (split_path ''/p/cfg/.env.example'') = Inl ENOENT"
    by (simp add: readFile_def split_path_def node_at_def missing_def under_file_def is_file_node_def)
  from injectCode_creates_missing_file [OF h, of "''# INJECT:ENV''" "''KEY=1''"]
  show ?thesis using h
    by (simp add: injectCode_def inject_catch_def mkdir_recursive_def write_io_def writeFile_def
          split_path_def node_at_def under_file_def is_file_node_def)
qed

section \<open>Properties of the string functions\<close>

lemma indexOf_None_iff: "indexOf s m = None \<longleftrightarrow> \<not> sublist m s"
  by (induction s) (auto simp: sublist_Cons_right)

lemma includes_str_iff: "includes_str s m \<longleftrightarrow> sublist m s"
  by (simp add: includes_str_def indexOf_None_iff)

lemma indexOf_Some:
  assumes "indexOf s m = Some i"
  shows "s = take i s @ m @ drop (i + length m) s"
    and "\<forall>j<i. \<not> prefix m (drop j s)"
  using assms
proof (induction s arbitrary: i)
  case Nil
  { case 1 then show ?case by (simp split: if_splits) }
  { case 2 then show ?case by (simp split: if_splits) }
next
  case (Cons c cs)
  { case 1
    show ?case
    proof (cases "prefix m (c # cs)")
      case True
      with 1 have "i = 0" by simp
      with True show ?thesis by (auto simp: prefix_def)
    next
      case False
      with 1 obtain i' where i: "i = Suc i'" and i': "indexOf cs m = Some i'" by auto
      from Cons.IH(1) [OF i'] show ?thesis using i by simp
    qed }
  { case 2
    show ?case
    proof (cases "prefix m (c # cs)")
      case True
      with 2 show ?thesis by simp
    next
      case False
      with 2 obtain i' where i: "i = Suc i'" and i': "indexOf cs m = Some i'" by auto
      from Cons.IH(2) [OF i'] False show ?thesis using i
        by (auto simp: less_Suc_eq_0_disj)
    qed }
qed

lemma getSubstitution_plain: "CHR ''$'' \<notin> set t \<Longrightarrow> getSubstitution m b a t = t"
  by (induction m b a t rule: getSubstitution.induct) auto

lemma replace_str_plain:
  assumes "indexOf s m = Some i" and "CHR ''$'' \<notin> set t"
  shows "replace_str s m t = take i s @ t @ drop (i + length m) s"
  using assms by (simp add: replace_str_def getSubstitution_plain)

lemma match_literal_sublist: "match_literal m r = Some l \<Longrightarrow> sublist m r"
  by (auto simp: match_literal_def split: if_splits)

lemma match_marker_line_sublist: "match_marker_line m r = Some l \<Longrightarrow> sublist m r"
  by (induction r arbitrary: l)
     (auto simp: sublist_Cons_right split: if_splits option.splits dest: match_literal_sublist)

lemma strip_from_absent: "\<not> sublist m s \<Longrightarrow> strip_from m bol s = s"
proof (induction m bol s rule: strip_from.induct)
  case (1 m bol)
  then show ?case by simp
next
  case (2 m bol c cs)
  from "2.prems" have none: "match_marker_line m (c # cs) = None"
    using match_marker_line_sublist by (cases "match_marker_line m (c # cs)") auto
  from "2.prems" have "\<not> sublist m cs" by (simp add: sublist_Cons_right)
  with 2 none show ?case by simp
qed

lemma strip_marker_lines_absent:
  "\<not> includes_str content marker \<Longrightarrow> strip_marker_lines marker content = content"
  by (simp add: strip_marker_lines_def includes_str_iff strip_from_absent)

section \<open>Properties of \<open>injectCode\<close>\<close>

lemma injectCode_existing:
  assumes "readFile fs (split_path filePath) = Inr content"
  shows "injectCode fs filePath marker code =
           (case inject_existing fs filePath marker code content of
              (Inl err, fs') \<Rightarrow> inject_catch fs' filePath marker code err
            | (Inr b, fs') \<Rightarrow> (Inr b, fs'))"
  using assms by (simp add: injectCode_def)

lemma injectCode_text_absent:
  assumes "readFile fs (split_path filePath) = Inr content"
    and "\<not> scripts_style filePath marker"
    and "\<not> includes_str content marker"
  shows "injectCode fs filePath marker code = (Inr False, fs)"
  using assms
  by (auto simp: injectCode_existing inject_existing_def inject_text_def)

lemma injectCode_text_found:
  assumes "readFile fs (split_path filePath) = Inr content"
    and "\<not> scripts_style filePath marker"
    and "includes_str content marker"
  shows "injectCode fs filePath marker code =
           (Inr True,
            AList.update (split_path filePath)
              (File (replace_str content marker (code @ [CHR 0x0A] @ ''  '' @ marker))) fs)"
  using assms
  by (auto simp: injectCode_existing inject_existing_def inject_text_def
        write_io_def writeFile_existing)

lemma merge_scripts_object:
  assumes "readFile fs (split_path filePath) = Inr content"
    and "JSON_parse (''{'' @ code @ ''}'') = Inr (JObj add)"
  shows "merge_scripts fs filePath (JObj ps) code =
           (Inr (Some True),
            AList.update (split_path filePath)
              (File (JSON_stringify
                       (JObj (obj_set ''scripts''
                                (JObj (assign (assign [] (spread (map_of ps ''scripts''))) add)) ps))
                     @ [CHR 0x0A])) fs)"
  using assms
  by (simp add: merge_scripts_def is_object_def get_prop_def set_prop_def spread_def
        writeFile_existing)

lemma injectCode_scripts:
  assumes "readFile fs (split_path filePath) = Inr content"
    and "scripts_style filePath marker"
    and "JSON_parse (strip_marker_lines marker content) = Inr (JObj ps)"
    and "JSON_parse (''{'' @ code @ ''}'') = Inr (JObj add)"
  shows "injectCode fs filePath marker code =
           (Inr True,
            AList.update (split_path filePath)
              (File (JSON_stringify
                       (JObj (obj_set ''scripts''
                                (JObj (assign (assign [] (spread (map_of ps ''scripts''))) add)) ps))
                     @ [CHR 0x0A])) fs)"
  using assms
  by (simp add: injectCode_existing inject_existing_def merge_scripts_object)

lemma injectCode_scripts_bad_code:
  assumes "readFile fs (split_path filePath) = Inr content"
    and "scripts_style filePath marker"
    and "JSON_parse (strip_marker_lines marker content) = Inr packageJson"
    and "JSON_parse (''{'' @ code @ ''}'') = Inl e"
  shows "injectCode fs filePath marker code = (Inl (InjectionCodeError (CauseParse e) code), fs)"
  using assms
  by (simp add: injectCode_existing inject_existing_def merge_scripts_def inject_catch_def)

lemmas fs_eval =
  readFile_def writeFile_def node_at_def split_path_def missing_def under_file_def
  is_file_node_def mkdir_recursive_def write_io_def

lemmas path_eval = path_join_def path_normalize_def

lemmas str_eval =
  includes_str_def endsWith_def startsWith_def replace_str_def strip_marker_lines_def
  test_marker_line_def match_literal_def is_space_def is_line_terminator_def suffix_def

lemmas json_eval =
  JSON_parse_def is_json_ws_def tok_cons_def str_cons_def is_digit_def lex_number_def
  punctuation_def literal_name_def
  lex_int_def lex_frac_def lex_exp_def modelled_number_def unescape_def hex4_def hex_val_def
  pstep_def value_start_def key_start_def close_def scalar_def obj_set_def
  is_array_index_def int_of_digits_def assign_def Object_assign_def spread_def get_prop_def set_prop_def
  JSON_stringify_def quote_def quote_char_def is_object_def

lemmas inject_eval =
  injectCode_def inject_existing_def inject_text_def inject_catch_def merge_scripts_def
  scripts_style_def

section \<open>A marker that the file does not contain\<close>

text \<open>
  Claim C4, as amended. On the generic text path, that is unless the path ends in
  \<^verbatim>\<open>package.json\<close> and the marker contains \<^verbatim>\<open>WORKERS_SCRIPTS\<close>, \<open>injectCode\<close> on an existing
  file whose content does not contain the marker returns \<open>applied = false\<close> and leaves the
  file system as it is. This is no error: the loop over the injections goes on with the
  next injection, and the marker is not recorded as injected.
\<close>

theorem injectCode_marker_absent:
  assumes "readFile fs (split_path (path_join targetDir file)) = Inr content"
    and "\<not> scripts_style (path_join targetDir file) marker"
    and "\<not> includes_str content marker"
  shows "injectCode fs (path_join targetDir file) marker code = (Inr False, fs)
         \<and> apply_injections fs targetDir ms
              (\<lparr>inj_file = file, inj_marker = marker, inj_code = code\<rparr> # rest)
            = apply_injections fs targetDir ms rest"
  using injectCode_text_absent [OF assms] by simp

theorem injectCode_marker_absent_witness:
  "readFile [([''p''], Dir), ([''p'', ''a.ts''], File ''let x = 1'')]
     (split_path (path_join ''/p'' ''a.ts'')) = Inr ''let x = 1''
   \<and> \<not> scripts_style (path_join ''/p'' ''a.ts'') ''// INJECT:A''
   \<and> \<not> includes_str ''let x = 1'' ''// INJECT:A''
   \<and> injectCode [([''p''], Dir), ([''p'', ''a.ts''], File ''let x = 1'')]
        (path_join ''/p'' ''a.ts'') ''// INJECT:A'' ''y''
       = (Inr False, [([''p''], Dir), ([''p'', ''a.ts''], File ''let x = 1'')])"
proof -
  have a: "readFile [([''p''], Dir), ([''p'', ''a.ts''], File ''let x = 1'')]
             (split_path (path_join ''/p'' ''a.ts'')) = Inr ''let x = 1''"
    by (simp add: fs_eval path_eval)
  have b: "\<not> scripts_style (path_join ''/p'' ''a.ts'') ''// INJECT:A''"
    by (simp add: scripts_style_def str_eval path_eval)
  have c: "\<not> includes_str ''let x = 1'' ''// INJECT:A''"
    by (simp add: str_eval)
  from injectCode_marker_absent [OF a b c] a b c show ?thesis by simp
qed

text \<open>
  The claim as stated fails on the manifest path: the manifest \<^verbatim>\<open>{}\<close> does not contain
  the marker, and yet the scripts are merged, the file is written and the result is
  \<open>applied = true\<close>.
\<close>

theorem injectCode_marker_absent_counterexample:
  "readFile [([''p''], Dir), ([''p'', ''package.json''], File ''{}'')]
     (split_path ''/p/package.json'') = Inr ''{}''
   \<and> \<not> includes_str ''{}'' ''// INJECT:WORKERS_SCRIPTS''
   \<and> injectCode [([''p''], Dir), ([''p'', ''package.json''], File ''{}'')]
        ''/p/package.json'' ''// INJECT:WORKERS_SCRIPTS'' (CHR 0x22 # ''a'' @ [CHR 0x22] @ '': 1'')
       = (Inr True,
          [([''p''], Dir),
           ([''p'', ''package.json''],
            File (''{'' @ [CHR 0x0A] @ ''  '' @ [CHR 0x22] @ ''scripts'' @ [CHR 0x22] @ '': {''
                  @ [CHR 0x0A] @ ''    '' @ [CHR 0x22] @ ''a'' @ [CHR 0x22] @ '': 1''
                  @ [CHR 0x0A] @ ''  }'' @ [CHR 0x0A] @ ''}'' @ [CHR 0x0A]))])"
  by (simp add: fs_eval str_eval json_eval inject_eval)

section \<open>Properties of objects\<close>

lemma map_of_insert_index:
  "map_of ps k = None \<Longrightarrow> map_of (insert_index k v ps) = (map_of ps)(k \<mapsto> v)"
  by (induction ps) (auto simp: fun_eq_iff)

lemma map_of_obj_set: "map_of (obj_set k v ps) = (map_of ps)(k \<mapsto> v)"
  by (rule ext)
     (auto simp: obj_set_def update_conv' map_of_insert_index map_add_def split: option.splits)

lemma map_of_assign: "map_of (assign t s) = map_of t ++ map_of (rev s)"
proof (induction s arbitrary: t)
  case Nil
  then show ?case by (simp add: assign_def)
next
  case (Cons p s)
  have "assign t (p # s) = assign (obj_set (fst p) (snd p) t) s"
    by (simp add: assign_def)
  then have "map_of (assign t (p # s)) = map_of (obj_set (fst p) (snd p) t) ++ map_of (rev s)"
    by (simp only: Cons.IH)
  also have "\<dots> = map_of t ++ map_of (rev (p # s))"
    by (rule ext) (auto simp: map_of_obj_set map_add_def split: option.splits)
  finally show ?case .
qed

lemma map_of_filter_key:
  "map_of (filter (\<lambda>p. fst p \<noteq> k) xs) = map_of xs |` (- {k})"
  by (induction xs) (auto simp: restrict_map_def fun_eq_iff)

lemma map_of_Object_assign:
  "map_of (Object_assign t s) = map_of t ++ (map_of (rev s) |` (- {''__proto__''}))"
  by (simp add: Object_assign_def map_of_assign rev_filter map_of_filter_key)

lemma keys_insert_index:
  "set (map fst (insert_index k v ps)) = insert k (set (map fst ps))"
  by (induction ps) auto

lemma distinct_insert_index:
  "distinct (map fst ps) \<Longrightarrow> k \<notin> set (map fst ps) \<Longrightarrow> distinct (map fst (insert_index k v ps))"
  by (induction ps) (auto simp: keys_insert_index simp del: set_map)

lemma distinct_obj_set:
  "distinct (map fst ps) \<Longrightarrow> distinct (map fst (obj_set k v ps))"
  by (auto simp: obj_set_def distinct_update distinct_insert_index map_of_eq_None_iff)

lemma distinct_assign: "distinct (map fst t) \<Longrightarrow> distinct (map fst (assign t s))"
  unfolding assign_def
  by (induction s arbitrary: t) (auto simp: distinct_obj_set)

lemma map_of_rev_distinct: "distinct (map fst s) \<Longrightarrow> map_of (rev s) = map_of s"
  by (rule ext) (metis map_of_eq_None_iff map_of_is_SomeI map_of_SomeD not_Some_eq set_rev)

lemma set_insert_index: "set (insert_index k v ps) = insert (k, v) (set ps)"
  by (induction ps) auto

lemma set_update_subset: "set (AList.update k v ps) \<subseteq> insert (k, v) (set ps)"
  by (induction ps) auto

lemma set_obj_set: "set (obj_set k v ps) \<subseteq> insert (k, v) (set ps)"
  using set_update_subset [of k v ps]
  by (auto simp: obj_set_def set_insert_index)

section \<open>Properties of \<open>JSON_parse\<close>\<close>

lemma wf_reduce:
  assumes "reduce v st = Some s'" and "wf_json v" and "\<forall>f \<in> set st. wf_frame f"
  shows "wf_pstate s'"
  using assms set_obj_set
  by (induction v st rule: reduce.induct)
     (fastforce simp: wf_pstate_def distinct_obj_set)+

lemma wf_pstep:
  assumes "pstep s t = Some s'" and "wf_pstate s" and "wf_token t"
  shows "wf_pstate s'"
proof -
  obtain m st where s: "s = (m, st)" by (cases s)
  from assms(2) s have st: "\<forall>f \<in> set st. wf_frame f" by (simp add: wf_pstate_def)
  have red: "\<And>v st'. reduce v st' = Some s' \<Longrightarrow> wf_json v \<Longrightarrow> \<forall>f \<in> set st'. wf_frame f
               \<Longrightarrow> wf_pstate s'"
    by (rule wf_reduce)
  have start: "value_start t st = Some s' \<Longrightarrow> wf_pstate s'"
    using st red [of _ st] assms(3)
    by (auto simp: value_start_def scalar_def wf_pstate_def wf_token_def
             split: token.splits option.splits)
  have key: "key_start t st = Some s' \<Longrightarrow> wf_pstate s'"
    using st
    by (auto simp: key_start_def wf_pstate_def split: token.splits list.splits frame.splits option.splits)
  have cl: "close t st = Some s' \<Longrightarrow> wf_pstate s'"
    using st
    by (auto simp: close_def split: token.splits list.splits frame.splits option.splits
             intro!: red)
  have keep: "wf_pstate (WantValue, st)" "wf_pstate (WantKey, st)"
    using st by (simp_all add: wf_pstate_def)
  from assms(1) s show ?thesis
    using start key cl keep
    by (auto simp: pstep_def split: mode.splits if_splits list.splits frame.splits)
qed

lemma wf_parse_tokens:
  "parse_tokens s ts = Some v \<Longrightarrow> wf_pstate s \<Longrightarrow> \<forall>t \<in> set ts. wf_token t \<Longrightarrow> wf_json v"
proof (induction ts arbitrary: s)
  case Nil
  then show ?case by (auto simp: wf_pstate_def split: prod.splits mode.splits)
next
  case (Cons t ts)
  then show ?case by (auto split: option.splits dest: wf_pstep)
qed

lemma lex_number_not_Nil: "lex_number s = Some n \<Longrightarrow> n \<noteq> []"
  by (auto simp: lex_number_def lex_int_def Let_def split: option.splits list.splits if_splits)

lemma tok_cons_Inr: "tok_cons t r = Inr ts \<Longrightarrow> \<exists>ts'. r = Inr ts' \<and> ts = t # ts'"
  by (auto simp: tok_cons_def split: sum.splits)

text \<open>The ways in which the tokenizer goes on from a character.\<close>

lemma tokenize_Cons_cases:
  assumes "tokenize (c # cs) = Inr ts"
  obtains (space) "is_json_ws c" "tokenize cs = Inr ts"
  | (punct) t ts' where "\<not> is_json_ws c" "punctuation c = Some t" "ts = t # ts'"
      "tokenize cs = Inr ts'"
  | (str) s n ts' where "c = CHR 0x22" "lex_string cs = Inr (s, n)" "ts = TString s # ts'"
      "tokenize (drop n cs) = Inr ts'"
  | (num) n ts' where "c = CHR ''-'' \<or> is_digit c" "lex_number (c # cs) = Some n"
      "modelled_number n" "ts = TNumber n # ts'" "tokenize (drop (length n - 1) cs) = Inr ts'"
  | (name) t k ts' where "\<not> is_json_ws c" "c \<noteq> CHR ''-''" "literal_name (c # cs) = Some (t, k)"
      "ts = t # ts'" "tokenize (drop k cs) = Inr ts'"
proof (cases "is_json_ws c")
  case True
  with assms space show ?thesis by simp
next
  case ws: False
  show ?thesis
  proof (cases "punctuation c")
    case (Some t)
    with assms ws have "tok_cons t (tokenize cs) = Inr ts" by simp
    from tok_cons_Inr [OF this] ws Some punct show ?thesis by blast
  next
    case None
    show ?thesis
    proof (cases "c = CHR 0x22")
      case True
      with assms ws None obtain s n where l: "lex_string cs = Inr (s, n)"
        and "tok_cons (TString s) (tokenize (drop n cs)) = Inr ts"
        by (auto split: sum.splits)
      from tok_cons_Inr [OF this(2)] True l str show ?thesis by blast
    next
      case q: False
      show ?thesis
      proof (cases "c = CHR ''-'' \<or> is_digit c")
        case True
        with assms ws None q obtain n where l: "lex_number (c # cs) = Some n"
          and mn: "modelled_number n"
          and "tok_cons (TNumber n) (tokenize (drop (length n - 1) cs)) = Inr ts"
          by (auto split: option.splits if_splits)
        from tok_cons_Inr [OF this(3)] True l mn num show ?thesis by blast
      next
        case False
        with assms ws None q obtain t k where l: "literal_name (c # cs) = Some (t, k)"
          and "tok_cons t (tokenize (drop k cs)) = Inr ts"
          by (auto split: option.splits)
        from tok_cons_Inr [OF this(2)] False ws l name show ?thesis by blast
      qed
    qed
  qed
qed

lemma wf_tokenize: "tokenize s = Inr ts \<Longrightarrow> \<forall>t \<in> set ts. wf_token t"
proof (induction s arbitrary: ts rule: length_induct)
  case (1 s)
  then have IH: "\<And>r ts'. length r < length s \<Longrightarrow> tokenize r = Inr ts' \<Longrightarrow> \<forall>t \<in> set ts'. wf_token t"
    by blast
  show ?case
  proof (cases s)
    case Nil
    with "1.prems" show ?thesis by simp
  next
    case (Cons c cs)
    with "1.prems" have "tokenize (c # cs) = Inr ts" by simp
    then show ?thesis
    proof (cases rule: tokenize_Cons_cases)
      case space
      with IH [of cs ts] Cons show ?thesis by simp
    next
      case (punct t ts')
      with IH [of cs ts'] Cons show ?thesis
        by (auto simp: wf_token_def punctuation_def split: if_splits)
    next
      case (str x n ts')
      with IH [of "drop n cs" ts'] Cons show ?thesis
        by (simp add: wf_token_def)
    next
      case (num n ts')
      with IH [of "drop (length n - 1) cs" ts'] Cons lex_number_not_Nil [OF num(2)]
      show ?thesis by (simp add: wf_token_def wf_number_def)
    next
      case (name t k ts')
      from name(3) have "t = TTrue \<or> t = TFalse \<or> t = TNull"
        by (auto simp: literal_name_def split: if_splits)
      with name IH [of "drop k cs" ts'] Cons show ?thesis
        by (auto simp: wf_token_def)
    qed
  qed
qed

lemma wf_JSON_parse: "JSON_parse s = Inr v \<Longrightarrow> wf_json v"
proof -
  assume "JSON_parse s = Inr v"
  then obtain ts where ts: "tokenize s = Inr ts" and p: "parse_tokens (WantValue, []) ts = Some v"
    by (auto simp: JSON_parse_def split: sum.splits option.splits)
  have "wf_pstate (WantValue, [])" by (simp add: wf_pstate_def)
  with p show "wf_json v" using wf_tokenize [OF ts] by (rule wf_parse_tokens)
qed

text \<open>A text that starts with a brace denotes an object, if it denotes anything.\<close>

lemma reduce_bottom:
  assumes "reduce v st = Some (m', st')" and "st \<noteq> []" and "last st = InObj ps k"
  shows "st' \<noteq> [] \<and> (\<exists>ps' k'. last st' = InObj ps' k') \<and> m' = AfterValue"
  using assms
  by (induction v st rule: reduce.induct) (auto split: if_splits)

lemma pstep_bottom:
  assumes "pstep (m, st) t = Some (m', st')" and "st \<noteq> []" and "last st = InObj ps k"
  shows "(st' \<noteq> [] \<and> (\<exists>ps' k'. last st' = InObj ps' k') \<and> (\<forall>v. m' \<noteq> Finished v))
         \<or> (\<exists>ps'. m' = Finished (JObj ps') \<and> st' = [])"
proof -
  have start: "value_start t st = Some (m', st') \<Longrightarrow> ?thesis"
    using assms(2,3) reduce_bottom [of _ st m' st' ps k]
    by (auto simp: value_start_def split: token.splits option.splits)
  have key: "key_start t st = Some (m', st') \<Longrightarrow> ?thesis"
    using assms(2,3)
    by (auto simp: key_start_def split: token.splits list.splits frame.splits option.splits if_splits)
  have cl: "close t st = Some (m', st') \<Longrightarrow> ?thesis"
  proof -
    assume c: "close t st = Some (m', st')"
    from assms(2) obtain f rest where st: "st = f # rest" by (cases st) auto
    show ?thesis
    proof (cases "rest = []")
      case True
      with st assms(3) c show ?thesis
        by (auto simp: close_def split: token.splits frame.splits option.splits)
    next
      case False
      with st assms(3) have "last rest = InObj ps k" by simp
      with False c st show ?thesis
        using reduce_bottom [of _ rest m' st' ps k]
        by (auto simp: close_def split: token.splits frame.splits option.splits)
    qed
  qed
  from assms show ?thesis
    using start key cl
    by (auto simp: pstep_def split: mode.splits if_splits list.splits frame.splits)
qed

lemma parse_tokens_Finished: "parse_tokens (Finished v, st) ts = Some w \<Longrightarrow> w = v"
  by (cases ts) (auto simp: pstep_def)

lemma parse_tokens_bottom:
  assumes "parse_tokens (m, st) ts = Some v" and "st \<noteq> []" and "last st = InObj ps k"
    and "\<forall>w. m \<noteq> Finished w"
  shows "\<exists>qs. v = JObj qs"
  using assms
proof (induction ts arbitrary: m st ps k)
  case Nil
  then show ?case by (auto split: mode.splits)
next
  case (Cons t ts)
  from Cons.prems(1) obtain m' st' where step: "pstep (m, st) t = Some (m', st')"
    and rest: "parse_tokens (m', st') ts = Some v"
    by (auto split: option.splits)
  from pstep_bottom [OF step Cons.prems(2,3)] show ?case
  proof
    assume "st' \<noteq> [] \<and> (\<exists>ps' k'. last st' = InObj ps' k') \<and> (\<forall>v. m' \<noteq> Finished v)"
    with rest Cons.IH show ?thesis by blast
  next
    assume "\<exists>ps'. m' = Finished (JObj ps') \<and> st' = []"
    with rest parse_tokens_Finished show ?thesis by blast
  qed
qed

lemma JSON_parse_braces:
  assumes "JSON_parse (''{'' @ code @ ''}'') = Inr v"
  shows "\<exists>add. v = JObj add"
proof -
  from assms obtain ts where ts: "tokenize (''{'' @ code @ ''}'') = Inr ts"
    and p: "parse_tokens (WantValue, []) ts = Some v"
    by (auto simp: JSON_parse_def split: sum.splits option.splits)
  from ts obtain ts' where "ts = LBrace # ts'"
    by (auto simp: is_json_ws_def punctuation_def tok_cons_def split: sum.splits)
  with p have "parse_tokens (WantKeyOrClose, [InObj [] None]) ts' = Some v"
    by (simp add: pstep_def value_start_def)
  then show ?thesis by (rule parse_tokens_bottom) auto
qed

section \<open>Injection of scripts into the manifest\<close>

text \<open>
  Claim C3. For an existing file whose path ends in \<^verbatim>\<open>package.json\<close> and a marker that
  contains \<^verbatim>\<open>WORKERS_SCRIPTS\<close>: when the content without the marker lines is the JSON text of
  an object and the code between braces is a JSON text, then that text denotes an object
  \<open>add\<close>, and \<open>injectCode\<close> returns \<open>applied = true\<close> and writes the manifest, pretty-printed and
  ended by a newline, whose \<^verbatim>\<open>scripts\<close> section is the copy \<open>old\<close> of the former section with
  the pairs of \<open>add\<close> merged in: a key of \<open>add\<close> has the value from \<open>add\<close>, any other key its
  value from \<open>old\<close>. The witness is the example of the specification.
\<close>

theorem injectCode_merges_scripts:
  assumes "readFile fs (split_path filePath) = Inr content"
    and "scripts_style filePath marker"
    and "JSON_parse (strip_marker_lines marker content) = Inr (JObj ps)"
    and "JSON_parse (''{'' @ code @ ''}'') = Inr v"
  shows "\<exists>add old scripts.
           v = JObj add
         \<and> old = assign [] (spread (map_of ps ''scripts''))
         \<and> scripts = assign old add
         \<and> (\<forall>k. map_of scripts k
                   = (case map_of add k of Some x \<Rightarrow> Some x | None \<Rightarrow> map_of old k))
         \<and> injectCode fs filePath marker code =
             (Inr True,
              AList.update (split_path filePath)
                (File (JSON_stringify (JObj (obj_set ''scripts'' (JObj scripts) ps))
                       @ [CHR 0x0A])) fs)"
proof -
  from assms(4) obtain add where v: "v = JObj add" using JSON_parse_braces by blast
  with assms(4) have "wf_json (JObj add)" using wf_JSON_parse by blast
  then have "map_of (rev add) = map_of add" by (simp add: map_of_rev_distinct)
  then have "\<forall>k. map_of (assign (assign [] (spread (map_of ps ''scripts''))) add) k
               = (case map_of add k of Some x \<Rightarrow> Some x
                  | None \<Rightarrow> map_of (assign [] (spread (map_of ps ''scripts''))) k)"
    by (simp add: map_of_assign [of _ add] map_add_def)
  moreover note injectCode_scripts [OF assms(1-3) assms(4) [unfolded v]]
  ultimately show ?thesis using v by blast
qed

theorem injectCode_merges_scripts_witness:
  \<open>readFile [([''p''], Dir), ([''p'', ''package.json''],
       File (''{"scripts":{"dev":"x"'' @ [CHR 0x0A] @ ''    // INJECT:WORKERS_SCRIPTS''
             @ [CHR 0x0A] @ ''}}''))] (split_path ''/p/package.json'')
     = Inr (''{"scripts":{"dev":"x"'' @ [CHR 0x0A] @ ''    // INJECT:WORKERS_SCRIPTS''
            @ [CHR 0x0A] @ ''}}'')
   \<and> (\<exists>fs' out.
        injectCode [([''p''], Dir), ([''p'', ''package.json''],
            File (''{"scripts":{"dev":"x"'' @ [CHR 0x0A] @ ''    // INJECT:WORKERS_SCRIPTS''
                  @ [CHR 0x0A] @ ''}}''))]
          ''/p/package.json'' ''// INJECT:WORKERS_SCRIPTS'' ''"build": "y"'' = (Inr True, fs')
        \<and> readFile fs' (split_path ''/p/package.json'') = Inr out
        \<and> JSON_parse out
            = Inr (JObj [(''scripts'', JObj [(''dev'', JStr ''x''), (''build'', JStr ''y'')])])
        \<and> \<not> includes_str out ''// INJECT:WORKERS_SCRIPTS'')\<close>
proof -
  let ?content = \<open>''{"scripts":{"dev":"x"'' @ [CHR 0x0A] @ ''    // INJECT:WORKERS_SCRIPTS''
             @ [CHR 0x0A] @ ''}}''\<close>
  let ?fs = "[([''p''], Dir), ([''p'', ''package.json''], File ?content)]"
  let ?merged = "JObj [(''scripts'', JObj [(''dev'', JStr ''x''), (''build'', JStr ''y'')])]"
  have a: "readFile ?fs (split_path ''/p/package.json'') = Inr ?content"
    by (simp add: fs_eval)
  have b: "scripts_style ''/p/package.json'' ''// INJECT:WORKERS_SCRIPTS''"
    by (simp add: scripts_style_def str_eval)
  have c: "JSON_parse (strip_marker_lines ''// INJECT:WORKERS_SCRIPTS'' ?content)
             = Inr (JObj [(''scripts'', JObj [(''dev'', JStr ''x'')])])"
    by (simp add: str_eval json_eval)
  have d: \<open>JSON_parse (''{'' @ ''"build": "y"'' @ ''}'') = Inr (JObj [(''build'', JStr ''y'')])\<close>
    by (simp add: json_eval)
  from injectCode_merges_scripts [OF a b c d]
  have \<open>injectCode ?fs ''/p/package.json'' ''// INJECT:WORKERS_SCRIPTS'' ''"build": "y"''
          = (Inr True,
             AList.update (split_path ''/p/package.json'')
               (File (JSON_stringify ?merged @ [CHR 0x0A])) ?fs)\<close>
    by (simp add: json_eval)
  moreover have "JSON_parse (JSON_stringify ?merged @ [CHR 0x0A]) = Inr ?merged"
    by (simp add: json_eval)
  moreover have "\<not> includes_str (JSON_stringify ?merged @ [CHR 0x0A]) ''// INJECT:WORKERS_SCRIPTS''"
    by (simp add: json_eval str_eval)
  ultimately show ?thesis using a
    by (simp add: fs_eval)
qed

text \<open>
  Claim C10. On the manifest path \<open>injectCode\<close> merges the scripts and returns
  \<open>applied = true\<close> also when the manifest does not contain the marker at all: the
  manifest as it is is parsed, and the scripts of the code are merged into it.
\<close>

theorem injectCode_scripts_without_marker:
  assumes "readFile fs (split_path filePath) = Inr content"
    and "scripts_style filePath marker"
    and "\<not> includes_str content marker"
    and "JSON_parse content = Inr (JObj ps)"
    and "JSON_parse (''{'' @ code @ ''}'') = Inr v"
  shows "\<exists>add. v = JObj add
         \<and> injectCode fs filePath marker code =
             (Inr True,
              AList.update (split_path filePath)
                (File (JSON_stringify
                         (JObj (obj_set ''scripts''
                                  (JObj (assign (assign [] (spread (map_of ps ''scripts''))) add))
                                  ps))
                       @ [CHR 0x0A])) fs)"
proof -
  from assms(5) obtain add where v: "v = JObj add" using JSON_parse_braces by blast
  from assms(3,4) have "JSON_parse (strip_marker_lines marker content) = Inr (JObj ps)"
    by (simp add: strip_marker_lines_absent)
  from injectCode_scripts [OF assms(1,2) this assms(5) [unfolded v]] v show ?thesis by blast
qed

theorem injectCode_scripts_without_marker_witness:
  \<open>readFile [([''p''], Dir), ([''p'', ''package.json''], File ''{"name":"app"}'')]
      (split_path ''/p/package.json'') = Inr ''{"name":"app"}''
   \<and> \<not> includes_str ''{"name":"app"}'' ''// INJECT:WORKERS_SCRIPTS''
   \<and> injectCode [([''p''], Dir), ([''p'', ''package.json''], File ''{"name":"app"}'')]
        ''/p/package.json'' ''// INJECT:WORKERS_SCRIPTS'' ''"worker": "w"''
       = (Inr True,
          [([''p''], Dir),
           ([''p'', ''package.json''],
            File (JSON_stringify
                    (JObj [(''name'', JStr ''app''),
                           (''scripts'', JObj [(''worker'', JStr ''w'')])])
                  @ [CHR 0x0A]))])\<close>
proof -
  let ?fs = \<open>[([''p''], Dir), ([''p'', ''package.json''], File ''{"name":"app"}'')]\<close>
  have a: \<open>readFile ?fs (split_path ''/p/package.json'') = Inr ''{"name":"app"}''\<close>
    by (simp add: fs_eval)
  have b: "scripts_style ''/p/package.json'' ''// INJECT:WORKERS_SCRIPTS''"
    by (simp add: scripts_style_def str_eval)
  have c: \<open>\<not> includes_str ''{"name":"app"}'' ''// INJECT:WORKERS_SCRIPTS''\<close>
    by (simp add: str_eval)
  have d: \<open>JSON_parse ''{"name":"app"}'' = Inr (JObj [(''name'', JStr ''app'')])\<close>
    by (simp add: json_eval)
  have e: \<open>JSON_parse (''{'' @ ''"worker": "w"'' @ ''}'') = Inr (JObj [(''worker'', JStr ''w'')])\<close>
    by (simp add: json_eval)
  from injectCode_scripts_without_marker [OF a b c d e] a c show ?thesis
    by (simp add: json_eval fs_eval)
qed

section \<open>Errors end the run\<close>

lemma apply_injections_append:
  "apply_injections fs targetDir ms (xs @ ys) =
     (case apply_injections fs targetDir ms xs of
        (Inl e, fs') \<Rightarrow> (Inl e, fs')
      | (Inr ms', fs') \<Rightarrow> apply_injections fs' targetDir ms' ys)"
  by (induction xs arbitrary: fs ms) (auto split: prod.splits sum.splits)

lemma apply_features_append:
  "apply_features X loc reg targetDir fs acc (xs @ ys) =
     (case apply_features X loc reg targetDir fs acc xs of
        (Inl e, fs') \<Rightarrow> (Inl e, fs')
      | (Inr acc', fs') \<Rightarrow> apply_features X loc reg targetDir fs' acc' ys)"
  by (induction xs arbitrary: fs acc) (auto split: prod.splits sum.splits)

lemma build_Thrown:
  assumes "copyDirectory X fs (BASE_TEMPLATE_DIR loc) targetDir = (Inr (), fs1)"
    and "processAllTemplateVariables X fs1 targetDir projectName = (Inr (), fs2)"
    and "apply_features X loc reg targetDir fs2
           \<lparr>allDependencies = [], allDevDependencies = [], injectedMarkers = []\<rparr> selected
         = (Inl e, fs3)"
  shows "build X loc reg targetDir projectName selected fs = (Thrown e, fs3)"
  using assms by (simp add: build_def)

lemma main_Thrown:
  assumes "\<not> startsWith (currentDir loc) (TEMPLATE_ROOT loc)"
    and "target_of X loc answer = (targetDir, projectName)"
    and "check_target fs targetDir = (None, fs0)"
    and "build X loc reg targetDir projectName selected fs0 = (Thrown e, fs3)"
  shows "main X loc reg answer selected fs = (Exited 1, fs3)"
  using assms by (simp add: main_def scaffold_def)

lemmas run_eval =
  main_def scaffold_def build_def target_of_def check_target_def target_missing_def
  apply_feature_def copy_feature_files_def collect_dependencies_def set_add_def path_eval
  stat_def readdir_def

text \<open>
  Claim C8, as amended. A run reaches an injection into the manifest (the path ends in
  \<^verbatim>\<open>package.json\<close>, the marker contains \<^verbatim>\<open>WORKERS_SCRIPTS\<close>); the manifest exists and,
  without the marker lines, parses; the code between braces is no JSON text. Then
  \<open>injectCode\<close> raises the error that carries the code, the file system stays as it was
  before the injection, no later injection or feature is applied, and the process ends
  with status 1.
\<close>

theorem bad_script_code_halts_run:
  assumes "\<not> startsWith (currentDir loc) (TEMPLATE_ROOT loc)"
    and "target_of X loc answer = (targetDir, projectName)"
    and "check_target fs targetDir = (None, fs0)"
    and "copyDirectory X fs0 (BASE_TEMPLATE_DIR loc) targetDir = (Inr (), fs1)"
    and "processAllTemplateVariables X fs1 targetDir projectName = (Inr (), fs2)"
    and "apply_features X loc reg targetDir fs2
           \<lparr>allDependencies = [], allDevDependencies = [], injectedMarkers = []\<rparr> earlier
         = (Inr acc, fs3)"
    and "map_of reg featureKey = Some f"
    and "copy_feature_files X loc targetDir fs3 f = (Inr (), fs4)"
    and "feat_injections f
         = Some (before @ \<lparr>inj_file = file, inj_marker = marker, inj_code = code\<rparr> # after)"
    and "apply_injections fs4 targetDir (injectedMarkers acc) before = (Inr ms, fs5)"
    and "readFile fs5 (split_path (path_join targetDir file)) = Inr content"
    and "scripts_style (path_join targetDir file) marker"
    and "JSON_parse (strip_marker_lines marker content) = Inr packageJson"
    and "JSON_parse (''{'' @ code @ ''}'') = Inl SyntaxError"
  shows "injectCode fs5 (path_join targetDir file) marker code
           = (Inl (InjectionCodeError (CauseParse SyntaxError) code), fs5)
         \<and> main X loc reg answer (earlier @ featureKey # later) fs = (Exited 1, fs5)"
proof -
  let ?err = "InjectionCodeError (CauseParse SyntaxError) code"
  have inj: "injectCode fs5 (path_join targetDir file) marker code = (Inl ?err, fs5)"
    using assms(11-14) by (rule injectCode_scripts_bad_code)
  then have "apply_injections fs4 targetDir (injectedMarkers acc)
               (before @ \<lparr>inj_file = file, inj_marker = marker, inj_code = code\<rparr> # after)
             = (Inl ?err, fs5)"
    using assms(10) by (simp add: apply_injections_append)
  then have "apply_feature X loc reg targetDir fs3 acc featureKey = (Inl ?err, fs5)"
    using assms(7-9) by (simp add: apply_feature_def)
  then have "apply_features X loc reg targetDir fs2
               \<lparr>allDependencies = [], allDevDependencies = [], injectedMarkers = []\<rparr>
               (earlier @ featureKey # later) = (Inl ?err, fs5)"
    using assms(6) by (simp add: apply_features_append)
  with assms(4,5)
  have "build X loc reg targetDir projectName (earlier @ featureKey # later) fs0
          = (Thrown ?err, fs5)"
    by (rule build_Thrown)
  with assms(1-3)
  have "main X loc reg answer (earlier @ featureKey # later) fs = (Exited 1, fs5)"
    by (rule main_Thrown)
  with inj show ?thesis by simp
qed

theorem bad_script_code_halts_run_witness:
  \<open>main
     \<lparr>copyDirectory = (\<lambda>fs src dest.
          (Inr (), AList.update (split_path (path_join dest ''package.json'')) (File ''{}'') fs)),
      processAllTemplateVariables = (\<lambda>fs dir name. (Inr (), fs)),
      copyModuleFiles = (\<lambda>fs src dest files. (Inr (), fs)),
      glob_markers = (\<lambda>fs dir. []),
      path_resolve = path_join,
      path_basename = (\<lambda>p. last (split_path p))\<rparr>
     \<lparr>currentDir = ''/w'', TEMPLATE_ROOT = ''/t'', BASE_TEMPLATE_DIR = ''/t/templates/base'',
      MODULES_DIR = ''/t/templates/modules''\<rparr>
     [(''workers'',
       \<lparr>feat_name = ''Workers'', feat_files = None, feat_dependencies = None,
        feat_devDependencies = None,
        feat_injections = Some [\<lparr>inj_file = ''package.json'',
                                 inj_marker = ''// INJECT:WORKERS_SCRIPTS'',
                                 inj_code = ''"build" "y"''\<rparr>]\<rparr>)]
     ''app'' [''workers''] [([''w''], Dir)]
   = (Exited 1,
      [([''w''], Dir), ([''w'', ''app''], Dir), ([''w'', ''app'', ''package.json''], File ''{}'')])\<close>
proof -
  let ?X = "\<lparr>copyDirectory = (\<lambda>fs src dest.
          (Inr (), AList.update (split_path (path_join dest ''package.json'')) (File ''{}'') fs)),
      processAllTemplateVariables = (\<lambda>fs dir name. (Inr (), fs)),
      copyModuleFiles = (\<lambda>fs src dest files. (Inr (), fs)),
      glob_markers = (\<lambda>fs dir. []),
      path_resolve = path_join,
      path_basename = (\<lambda>p. last (split_path p))\<rparr>"
  let ?loc = "\<lparr>currentDir = ''/w'', TEMPLATE_ROOT = ''/t'',
      BASE_TEMPLATE_DIR = ''/t/templates/base'', MODULES_DIR = ''/t/templates/modules''\<rparr>"
  let ?i = \<open>\<lparr>inj_file = ''package.json'', inj_marker = ''// INJECT:WORKERS_SCRIPTS'',
             inj_code = ''"build" "y"''\<rparr>\<close>
  let ?f = "\<lparr>feat_name = ''Workers'', feat_files = None, feat_dependencies = None,
        feat_devDependencies = None, feat_injections = Some [?i]\<rparr>"
  let ?reg = "[(''workers'', ?f)]"
  let ?start = "[([''w''], Dir)]"
  let ?made = "[([''w''], Dir), ([''w'', ''app''], Dir)]"
  let ?copied = "[([''w''], Dir), ([''w'', ''app''], Dir),
              ([''w'', ''app'', ''package.json''], File ''{}'')]"
  let ?acc = "\<lparr>allDependencies = [], allDevDependencies = [], injectedMarkers = []\<rparr>"
  have 1: "\<not> startsWith (currentDir ?loc) (TEMPLATE_ROOT ?loc)"
    by (simp add: startsWith_def)
  have 2: "target_of ?X ?loc ''app'' = (''/w/app'', ''app'')"
    by (simp add: target_of_def path_eval)
  have 3: "check_target ?start ''/w/app'' = (None, ?made)"
    by (simp add: run_eval fs_eval)
  have 4: "copyDirectory ?X ?made (BASE_TEMPLATE_DIR ?loc) ''/w/app'' = (Inr (), ?copied)"
    by (simp add: path_eval split_path_def)
  have 5: "processAllTemplateVariables ?X ?copied ''/w/app'' ''app'' = (Inr (), ?copied)"
    by simp
  have 6: "apply_features ?X ?loc ?reg ''/w/app'' ?copied ?acc [] = (Inr ?acc, ?copied)"
    by simp
  have 7: "map_of ?reg ''workers'' = Some ?f" by simp
  have 8: "copy_feature_files ?X ?loc ''/w/app'' ?copied ?f = (Inr (), ?copied)"
    by (simp add: copy_feature_files_def)
  have 9: \<open>feat_injections ?f
             = Some ([] @ \<lparr>inj_file = ''package.json'', inj_marker = ''// INJECT:WORKERS_SCRIPTS'',
                           inj_code = ''"build" "y"''\<rparr> # [])\<close>
    by simp
  have 10: "apply_injections ?copied ''/w/app'' (injectedMarkers ?acc) [] = (Inr [], ?copied)"
    by simp
  have 11: "readFile ?copied (split_path (path_join ''/w/app'' ''package.json'')) = Inr ''{}''"
    by (simp add: fs_eval path_eval)
  have 12: "scripts_style (path_join ''/w/app'' ''package.json'') ''// INJECT:WORKERS_SCRIPTS''"
    by (simp add: scripts_style_def str_eval path_eval)
  have 13: "JSON_parse (strip_marker_lines ''// INJECT:WORKERS_SCRIPTS'' ''{}'') = Inr (JObj [])"
    by (simp add: str_eval json_eval)
  have 14: \<open>JSON_parse (''{'' @ ''"build" "y"'' @ ''}'') = Inl SyntaxError\<close>
    by (simp add: json_eval)
  from bad_script_code_halts_run [OF 1 2 3 4 5 6 7 8 9 10 11 12 13 14, of "[]"]
  show ?thesis by simp
qed

text \<open>
  The claim as stated fails where the manifest does not exist: the code is no interior of
  an object, and yet \<open>injectCode\<close> takes the \<^verbatim>\<open>ENOENT\<close> branch of its \<^verbatim>\<open>catch\<close> clause, writes
  the marker and the code as the manifest and returns \<open>applied = true\<close>; the run goes on
  to its end, where the cleanup removes the marker line and leaves the code as the
  manifest. It fails also where the manifest does not parse: the exception of
  \<^verbatim>\<open>JSON.parse\<close> at line 84 leaves \<open>injectCode\<close> as it is, without the code.
\<close>

theorem bad_script_code_halts_run_counterexample:
  \<open>scripts_style ''/w/app/package.json'' ''// INJECT:WORKERS_SCRIPTS''
   \<and> JSON_parse (''{'' @ ''"build" "y"'' @ ''}'') = Inl SyntaxError
   \<and> injectCode [([''w''], Dir), ([''w'', ''app''], Dir)]
        ''/w/app/package.json'' ''// INJECT:WORKERS_SCRIPTS'' ''"build" "y"''
       = (Inr True,
          [([''w''], Dir), ([''w'', ''app''], Dir),
           ([''w'', ''app'', ''package.json''],
            File (''// INJECT:WORKERS_SCRIPTS'' @ [CHR 0x0A] @ ''"build" "y"'' @ [CHR 0x0A]))])
   \<and> main
        \<lparr>copyDirectory = (\<lambda>fs src dest. (Inr (), fs)),
         processAllTemplateVariables = (\<lambda>fs dir name. (Inr (), fs)),
         copyModuleFiles = (\<lambda>fs src dest files. (Inr (), fs)),
         glob_markers = (\<lambda>fs dir. [path_join dir ''package.json'']),
         path_resolve = path_join,
         path_basename = (\<lambda>p. last (split_path p))\<rparr>
        \<lparr>currentDir = ''/w'', TEMPLATE_ROOT = ''/t'', BASE_TEMPLATE_DIR = ''/t/templates/base'',
         MODULES_DIR = ''/t/templates/modules''\<rparr>
        [(''workers'',
          \<lparr>feat_name = ''Workers'', feat_files = None, feat_dependencies = None,
           feat_devDependencies = None,
           feat_injections = Some [\<lparr>inj_file = ''package.json'',
                                    inj_marker = ''// INJECT:WORKERS_SCRIPTS'',
                                    inj_code = ''"build" "y"''\<rparr>]\<rparr>)]
        ''app'' [''workers''] [([''w''], Dir)]
       = (Completed,
          [([''w''], Dir), ([''w'', ''app''], Dir),
           ([''w'', ''app'', ''package.json''], File ([CHR 0x0A] @ ''"build" "y"'' @ [CHR 0x0A]))])
   \<and> injectCode [([''w''], Dir), ([''w'', ''app''], Dir), ([''w'', ''app'', ''package.json''], File ''{'')]
        ''/w/app/package.json'' ''// INJECT:WORKERS_SCRIPTS'' ''"build" "y"''
       = (Inl (JSONError SyntaxError),
          [([''w''], Dir), ([''w'', ''app''], Dir), ([''w'', ''app'', ''package.json''], File ''{'')])\<close>
proof (intro conjI)
  show "scripts_style ''/w/app/package.json'' ''// INJECT:WORKERS_SCRIPTS''"
    by (simp add: scripts_style_def str_eval)
  show \<open>JSON_parse (''{'' @ ''"build" "y"'' @ ''}'') = Inl SyntaxError\<close>
    by (simp add: json_eval)
  show \<open>injectCode [([''w''], Dir), ([''w'', ''app''], Dir)]
        ''/w/app/package.json'' ''// INJECT:WORKERS_SCRIPTS'' ''"build" "y"''
       = (Inr True,
          [([''w''], Dir), ([''w'', ''app''], Dir),
           ([''w'', ''app'', ''package.json''],
            File (''// INJECT:WORKERS_SCRIPTS'' @ [CHR 0x0A] @ ''"build" "y"'' @ [CHR 0x0A]))])\<close>
    by (simp add: fs_eval inject_eval)
  show \<open>injectCode [([''w''], Dir), ([''w'', ''app''], Dir), ([''w'', ''app'', ''package.json''], File ''{'')]
        ''/w/app/package.json'' ''// INJECT:WORKERS_SCRIPTS'' ''"build" "y"''
       = (Inl (JSONError SyntaxError),
          [([''w''], Dir), ([''w'', ''app''], Dir), ([''w'', ''app'', ''package.json''], File ''{'')])\<close>
    by (simp add: fs_eval str_eval json_eval inject_eval)
  show \<open>main
        \<lparr>copyDirectory = (\<lambda>fs src dest. (Inr (), fs)),
         processAllTemplateVariables = (\<lambda>fs dir name. (Inr (), fs)),
         copyModuleFiles = (\<lambda>fs src dest files. (Inr (), fs)),
         glob_markers = (\<lambda>fs dir. [path_join dir ''package.json'']),
         path_resolve = path_join,
         path_basename = (\<lambda>p. last (split_path p))\<rparr>
        \<lparr>currentDir = ''/w'', TEMPLATE_ROOT = ''/t'', BASE_TEMPLATE_DIR = ''/t/templates/base'',
         MODULES_DIR = ''/t/templates/modules''\<rparr>
        [(''workers'',
          \<lparr>feat_name = ''Workers'', feat_files = None, feat_dependencies = None,
           feat_devDependencies = None,
           feat_injections = Some [\<lparr>inj_file = ''package.json'',
                                    inj_marker = ''// INJECT:WORKERS_SCRIPTS'',
                                    inj_code = ''"build" "y"''\<rparr>]\<rparr>)]
        ''app'' [''workers''] [([''w''], Dir)]
       = (Completed,
          [([''w''], Dir), ([''w'', ''app''], Dir),
           ([''w'', ''app'', ''package.json''], File ([CHR 0x0A] @ ''"build" "y"'' @ [CHR 0x0A]))])\<close>
    by (simp add: run_eval fs_eval str_eval json_eval inject_eval cleanupMarkers_def cleanup_file_def write_or_skip_def)
qed

section \<open>The target directory\<close>

text \<open>
  Claim C9. When the answer to the prompt is a project name other than \<^verbatim>\<open>.\<close> and the
  directory of that name exists and has an entry, the run ends with status 1 and the
  file system is as it was: the check comes before every step that writes. The answer
  \<^verbatim>\<open>.\<close> passes the check of the prompt and stands for the current directory, where a name
  stands for the directory that \<^verbatim>\<open>path.resolve\<close> gives.
\<close>

theorem nonempty_target_rejected:
  assumes "answer \<noteq> ''.''"
    and "stat fs (split_path (path_resolve X (currentDir loc) answer)) = Inr IsDirectory"
    and "readdir fs (split_path (path_resolve X (currentDir loc) answer)) = Inr entries"
    and "entries \<noteq> []"
  shows "main X loc reg answer selected fs = (Exited 1, fs)
         \<and> fst (target_of X loc answer) = path_resolve X (currentDir loc) answer
         \<and> validate ''.''
         \<and> fst (target_of X loc ''.'') = currentDir loc"
  using assms
  by (simp add: main_def scaffold_def target_of_def check_target_def validate_def is_space_def)

theorem nonempty_target_rejected_witness:
  "''app'' \<noteq> ''.''
   \<and> stat [([''w''], Dir), ([''w'', ''app''], Dir), ([''w'', ''app'', ''notes.txt''], File ''n'')]
        (split_path (path_join ''/w'' ''app'')) = Inr IsDirectory
   \<and> readdir [([''w''], Dir), ([''w'', ''app''], Dir), ([''w'', ''app'', ''notes.txt''], File ''n'')]
        (split_path (path_join ''/w'' ''app'')) = Inr [''notes.txt'']
   \<and> main
        \<lparr>copyDirectory = (\<lambda>fs src dest.
           (Inr (), AList.update (split_path (path_join dest ''package.json'')) (File ''{}'') fs)),
         processAllTemplateVariables = (\<lambda>fs dir name. (Inr (), fs)),
         copyModuleFiles = (\<lambda>fs src dest files. (Inr (), fs)),
         glob_markers = (\<lambda>fs dir. []),
         path_resolve = path_join,
         path_basename = (\<lambda>p. last (split_path p))\<rparr>
        \<lparr>currentDir = ''/w'', TEMPLATE_ROOT = ''/t'', BASE_TEMPLATE_DIR = ''/t/templates/base'',
         MODULES_DIR = ''/t/templates/modules''\<rparr>
        [] ''app'' []
        [([''w''], Dir), ([''w'', ''app''], Dir), ([''w'', ''app'', ''notes.txt''], File ''n'')]
       = (Exited 1,
          [([''w''], Dir), ([''w'', ''app''], Dir), ([''w'', ''app'', ''notes.txt''], File ''n'')])"
proof -
  let ?X = "\<lparr>copyDirectory = (\<lambda>fs src dest.
           (Inr (), AList.update (split_path (path_join dest ''package.json'')) (File ''{}'') fs)),
         processAllTemplateVariables = (\<lambda>fs dir name. (Inr (), fs)),
         copyModuleFiles = (\<lambda>fs src dest files. (Inr (), fs)),
         glob_markers = (\<lambda>fs dir. []),
         path_resolve = path_join,
         path_basename = (\<lambda>p. last (split_path p))\<rparr>"
  let ?loc = "\<lparr>currentDir = ''/w'', TEMPLATE_ROOT = ''/t'',
         BASE_TEMPLATE_DIR = ''/t/templates/base'', MODULES_DIR = ''/t/templates/modules''\<rparr>"
  let ?start = "[([''w''], Dir), ([''w'', ''app''], Dir),
                 ([''w'', ''app'', ''notes.txt''], File ''n'')]"
  have 1: "''app'' \<noteq> ''.''" by simp
  have 2: "stat ?start (split_path (path_resolve ?X (currentDir ?loc) ''app'')) = Inr IsDirectory"
    by (simp add: stat_def fs_eval path_eval)
  have 3: "readdir ?start (split_path (path_resolve ?X (currentDir ?loc) ''app''))
             = Inr [''notes.txt'']"
    by (simp add: readdir_def fs_eval path_eval)
  have 4: "[''notes.txt''] \<noteq> []" by simp
  from nonempty_target_rejected [OF 1 2 3 4, of "[]" "[]"] 1 2 3 show ?thesis by simp
qed

text \<open>
  The same check stands before a run in the current directory: with the answer \<^verbatim>\<open>.\<close> a
  current directory that has an entry ends the run in the same way.
\<close>

lemma nonempty_current_directory_rejected:
  assumes "stat fs (split_path (currentDir loc)) = Inr IsDirectory"
    and "readdir fs (split_path (currentDir loc)) = Inr entries"
    and "entries \<noteq> []"
  shows "main X loc reg ''.'' selected fs = (Exited 1, fs)"
  using assms
  by (simp add: main_def scaffold_def target_of_def check_target_def)

section \<open>The reserved file\<close>

lemma cleanup_file_skip: "endsWith file ''.env.example'' \<Longrightarrow> cleanup_file ms fs file = fs"
  by (simp add: cleanup_file_def)

lemma write_or_skip_other:
  "p \<noteq> split_path file \<Longrightarrow> node_at (write_or_skip fs file d) p = node_at fs p"
  by (auto simp: write_or_skip_def split: sum.splits dest: writeFile_other)

lemma cleanup_file_other:
  "p \<noteq> split_path file \<Longrightarrow> node_at (cleanup_file ms fs file) p = node_at fs p"
  by (auto simp: cleanup_file_def write_or_skip_other
           split: sum.splits prod.splits dest: writeFile_other)

lemma cleanup_files_keep:
  assumes "\<forall>g \<in> set files. split_path g = p \<longrightarrow> endsWith g ''.env.example''"
  shows "node_at (foldl (cleanup_file ms) fs files) p = node_at fs p"
  using assms
proof (induction files arbitrary: fs)
  case Nil
  then show ?case by simp
next
  case (Cons g files)
  have "node_at (cleanup_file ms fs g) p = node_at fs p"
  proof (cases "split_path g = p")
    case True
    with Cons.prems have "endsWith g ''.env.example''" by simp
    then show ?thesis by (simp add: cleanup_file_skip)
  next
    case False
    then show ?thesis by (simp add: cleanup_file_other)
  qed
  with Cons show ?case by simp
qed

text \<open>
  Claim C7. A file whose path ends in \<^verbatim>\<open>.env.example\<close> is the same after the cleanup as
  before it, whatever markers were injected in the run; \<^verbatim>\<open>glob\<close> lists a file under its
  one normalised path, so that the file is not listed under another name. In the
  witness the marker is removed from a source file and stays in the reserved file.
\<close>

theorem env_example_survives_cleanup:
  assumes "endsWith file ''.env.example''"
    and "\<forall>g \<in> set (glob fs targetDir).
           split_path g = split_path file \<longrightarrow> endsWith g ''.env.example''"
  shows "node_at (cleanupMarkers glob fs targetDir markers) (split_path file)
           = node_at fs (split_path file)"
  using assms(2) by (simp add: cleanupMarkers_def cleanup_files_keep)

theorem env_example_survives_cleanup_witness:
  "cleanupMarkers (\<lambda>fs dir. [''/p/a.ts'', ''/p/.env.example''])
     [([''p''], Dir),
      ([''p'', ''a.ts''], File (''x = 1'' @ [CHR 0x0A] @ ''# INJECT:ENV'' @ [CHR 0x0A] @ ''y = 2'')),
      ([''p'', ''.env.example''], File (''# INJECT:ENV'' @ [CHR 0x0A] @ ''KEY=1''))]
     ''/p'' [''# INJECT:ENV'']
   = [([''p''], Dir),
      ([''p'', ''a.ts''], File (''x = 1'' @ [CHR 0x0A] @ [CHR 0x0A] @ ''y = 2'')),
      ([''p'', ''.env.example''], File (''# INJECT:ENV'' @ [CHR 0x0A] @ ''KEY=1''))]
   \<and> node_at
        (cleanupMarkers (\<lambda>fs dir. [''/p/a.ts'', ''/p/.env.example''])
           [([''p''], Dir),
            ([''p'', ''a.ts''],
             File (''x = 1'' @ [CHR 0x0A] @ ''# INJECT:ENV'' @ [CHR 0x0A] @ ''y = 2'')),
            ([''p'', ''.env.example''], File (''# INJECT:ENV'' @ [CHR 0x0A] @ ''KEY=1''))]
           ''/p'' [''# INJECT:ENV''])
        (split_path ''/p/.env.example'')
      = Some (File (''# INJECT:ENV'' @ [CHR 0x0A] @ ''KEY=1''))"
proof -
  let ?glob = "\<lambda>(fs :: filesystem) (dir :: string). [''/p/a.ts'', ''/p/.env.example'']"
  let ?start = "[([''p''], Dir),
      ([''p'', ''a.ts''], File (''x = 1'' @ [CHR 0x0A] @ ''# INJECT:ENV'' @ [CHR 0x0A] @ ''y = 2'')),
      ([''p'', ''.env.example''], File (''# INJECT:ENV'' @ [CHR 0x0A] @ ''KEY=1''))]"
  have 1: "endsWith ''/p/.env.example'' ''.env.example''"
    by (simp add: str_eval)
  have 2: "\<forall>g \<in> set (?glob ?start ''/p'').
             split_path g = split_path ''/p/.env.example'' \<longrightarrow> endsWith g ''.env.example''"
    by (simp add: str_eval split_path_def)
  have 3: "cleanupMarkers ?glob ?start ''/p'' [''# INJECT:ENV'']
           = [([''p''], Dir),
              ([''p'', ''a.ts''], File (''x = 1'' @ [CHR 0x0A] @ [CHR 0x0A] @ ''y = 2'')),
              ([''p'', ''.env.example''], File (''# INJECT:ENV'' @ [CHR 0x0A] @ ''KEY=1''))]"
    by (simp add: cleanupMarkers_def cleanup_file_def write_or_skip_def str_eval fs_eval)
  from env_example_survives_cleanup [of "''/p/.env.example''" ?glob ?start "''/p''" "[''# INJECT:ENV'']", OF 1 2] 3
  show ?thesis by (simp add: fs_eval)
qed

section \<open>The collected dependencies\<close>

lemma foldl_map_add_none:
  "\<forall>M \<in> set Ms. M p = None \<Longrightarrow> foldl (++) m0 Ms p = m0 p"
proof (induction Ms arbitrary: m0)
  case Nil
  then show ?case by simp
next
  case (Cons M Ms)
  from Cons.prems have Mp: "M p = None" by simp
  have "foldl (++) m0 (M # Ms) p = foldl (++) (m0 ++ M) Ms p" by simp
  also have "\<dots> = (m0 ++ M) p" using Cons by simp
  also have "\<dots> = m0 p" using Mp by (simp add: map_add_def)
  finally show ?case .
qed

lemma foldl_map_add_value:
  assumes "\<forall>M \<in> set Ms. M p = None \<or> M p = Some v"
    and "m0 p = Some v \<or> (\<exists>M \<in> set Ms. M p = Some v)"
  shows "foldl (++) m0 Ms p = Some v"
  using assms
proof (induction Ms arbitrary: m0)
  case Nil
  then show ?case by simp
next
  case (Cons N Ms)
  from Cons.prems(1) have N: "N p = None \<or> N p = Some v" by simp
  from Cons.prems(1) have rest: "\<forall>M \<in> set Ms. M p = None \<or> M p = Some v" by simp
  have "(m0 ++ N) p = Some v \<or> (\<exists>M \<in> set Ms. M p = Some v)"
  proof (cases "N p")
    case None
    then have "(m0 ++ N) p = m0 p" by (simp add: map_add_def)
    with Cons.prems(2) None show ?thesis by auto
  next
    case (Some w)
    with N have "(m0 ++ N) p = Some v" by (simp add: map_add_def)
    then show ?thesis by simp
  qed
  with rest have "foldl (++) (m0 ++ N) Ms p = Some v" by (rule Cons.IH)
  then show ?case by simp
qed

lemma foldl_map_add_same_set:
  assumes "\<forall>M \<in> set Ms. \<forall>M' \<in> set Ms. \<forall>p v v'. M p = Some v \<and> M' p = Some v' \<longrightarrow> v = v'"
    and "set Ms = set Ns"
  shows "foldl (++) m0 Ms = foldl (++) m0 Ns"
proof (rule ext)
  fix p
  show "foldl (++) m0 Ms p = foldl (++) m0 Ns p"
  proof (cases "\<exists>M \<in> set Ms. M p \<noteq> None")
    case True
    then obtain M v where M: "M \<in> set Ms" and Mp: "M p = Some v" by auto
    have a: "\<forall>M' \<in> set Ms. M' p = None \<or> M' p = Some v"
    proof
      fix M' assume M': "M' \<in> set Ms"
      show "M' p = None \<or> M' p = Some v"
      proof (cases "M' p")
        case None
        then show ?thesis by simp
      next
        case (Some w)
        from assms(1) M M' have "\<forall>p v v'. M p = Some v \<and> M' p = Some v' \<longrightarrow> v = v'"
          by blast
        with Mp Some have "v = w" by blast
        with Some show ?thesis by simp
      qed
    qed
    then have b: "\<forall>M' \<in> set Ns. M' p = None \<or> M' p = Some v"
      using assms(2) by simp
    have "foldl (++) m0 Ms p = Some v"
      using a M Mp by (intro foldl_map_add_value) blast+
    moreover have "foldl (++) m0 Ns p = Some v"
      using b M Mp assms(2) by (intro foldl_map_add_value) blast+
    ultimately show ?thesis by simp
  next
    case False
    then have "\<forall>M \<in> set Ms. M p = None" by simp
    moreover from this assms(2) have "\<forall>M \<in> set Ns. M p = None" by simp
    ultimately show ?thesis by (simp add: foldl_map_add_none)
  qed
qed

lemma collect_dependencies_maps:
  "map_of (allDependencies (collect_dependencies acc f))
     = map_of (allDependencies acc) ++ assigned (feat_dependencies f)"
  "map_of (allDevDependencies (collect_dependencies acc f))
     = map_of (allDevDependencies acc) ++ assigned (feat_devDependencies f)"
  by (auto simp: collect_dependencies_def assigned_def declared_def map_of_Object_assign
      split: option.splits)

lemma apply_feature_collects:
  assumes "apply_feature X loc reg targetDir fs acc k = (Inr acc', fs')"
  shows "\<exists>f. map_of reg k = Some f
           \<and> allDependencies acc' = allDependencies (collect_dependencies acc f)
           \<and> allDevDependencies acc' = allDevDependencies (collect_dependencies acc f)"
  using assms
  by (auto simp: apply_feature_def split: option.splits prod.splits sum.splits)

lemma apply_features_collects:
  assumes "apply_features X loc reg targetDir fs acc ks = (Inr acc', fs')"
  shows "map_of (allDependencies acc')
           = foldl (++) (map_of (allDependencies acc))
               (map (\<lambda>f. assigned (feat_dependencies f)) (features_of reg ks))
         \<and> map_of (allDevDependencies acc')
           = foldl (++) (map_of (allDevDependencies acc))
               (map (\<lambda>f. assigned (feat_devDependencies f)) (features_of reg ks))"
  using assms
proof (induction ks arbitrary: fs acc)
  case Nil
  then show ?case by (simp add: features_of_def)
next
  case (Cons k ks)
  from Cons.prems obtain acc1 fs1
    where step: "apply_feature X loc reg targetDir fs acc k = (Inr acc1, fs1)"
      and rest: "apply_features X loc reg targetDir fs1 acc1 ks = (Inr acc', fs')"
    by (auto split: prod.splits sum.splits)
  from apply_feature_collects [OF step] obtain f where f: "map_of reg k = Some f"
    and d: "allDependencies acc1 = allDependencies (collect_dependencies acc f)"
    and dd: "allDevDependencies acc1 = allDevDependencies (collect_dependencies acc f)"
    by blast
  from f have "features_of reg (k # ks) = f # features_of reg ks"
    by (simp add: features_of_def)
  with Cons.IH [OF rest] d dd show ?case
    by (simp add: collect_dependencies_maps)
qed

lemma set_features_of: "set (features_of reg ks) = {f. \<exists>k \<in> set ks. map_of reg k = Some f}"
  by (auto simp: features_of_def split: option.splits)

lemma apply_features_distinct:
  assumes "apply_features X loc reg targetDir fs acc ks = (Inr acc', fs')"
    and "distinct (map fst (allDependencies acc))"
    and "distinct (map fst (allDevDependencies acc))"
  shows "distinct (map fst (allDependencies acc')) \<and> distinct (map fst (allDevDependencies acc'))"
  using assms
proof (induction ks arbitrary: fs acc)
  case Nil
  then show ?case by simp
next
  case (Cons k ks)
  from Cons.prems(1) obtain acc1 fs1
    where step: "apply_feature X loc reg targetDir fs acc k = (Inr acc1, fs1)"
      and rest: "apply_features X loc reg targetDir fs1 acc1 ks = (Inr acc', fs')"
    by (auto split: prod.splits sum.splits)
  from apply_feature_collects [OF step] obtain f
    where d: "allDependencies acc1 = allDependencies (collect_dependencies acc f)"
      and dd: "allDevDependencies acc1 = allDevDependencies (collect_dependencies acc f)"
    by blast
  have "distinct (map fst (allDependencies acc1))"
    using Cons.prems(2) by (simp add: d collect_dependencies_def Object_assign_def distinct_assign split: option.splits)
  moreover have "distinct (map fst (allDevDependencies acc1))"
    using Cons.prems(3) by (simp add: dd collect_dependencies_def Object_assign_def distinct_assign split: option.splits)
  ultimately show ?case using Cons.IH [OF rest] by simp
qed

lemma merged_section_maps:
  assumes "map_of xs = map_of ys" and "distinct (map fst xs)" and "distinct (map fst ys)"
  shows "\<exists>s t. merged_section d xs = JObj s \<and> merged_section d ys = JObj t \<and> map_of s = map_of t"
  using assms by (simp add: merged_section_def map_of_assign [of _ xs] map_of_assign [of _ ys]
      map_of_rev_distinct)

text \<open>
  Claim C6, as amended. Two runs select the same features in any order, and no package is
  declared with two versions by the selected features. Then the dependencies and the
  development dependencies that the two runs collect are the same mappings from package
  to version, and so are the sections of the manifest that they are merged into.
  (The order of the keys in the file follows the order of the selection.)
\<close>

theorem dependency_maps_order_independent:
  assumes "apply_features X loc reg targetDir fs
             \<lparr>allDependencies = [], allDevDependencies = [], injectedMarkers = []\<rparr> S1
           = (Inr a1, fs1)"
    and "apply_features X' loc' reg targetDir' fs'
             \<lparr>allDependencies = [], allDevDependencies = [], injectedMarkers = []\<rparr> S2
           = (Inr a2, fs2)"
    and "set S1 = set S2"
    and "\<forall>k \<in> set S1. \<forall>k' \<in> set S1. \<forall>f f'.
           map_of reg k = Some f \<and> map_of reg k' = Some f' \<longrightarrow>
             agree (feat_dependencies f) (feat_dependencies f')
             \<and> agree (feat_devDependencies f) (feat_devDependencies f')"
  shows "map_of (allDependencies a1) = map_of (allDependencies a2)
         \<and> map_of (allDevDependencies a1) = map_of (allDevDependencies a2)
         \<and> (\<forall>d. \<exists>s t. merged_section d (allDependencies a1) = JObj s
                      \<and> merged_section d (allDependencies a2) = JObj t \<and> map_of s = map_of t)
         \<and> (\<forall>d. \<exists>s t. merged_section d (allDevDependencies a1) = JObj s
                      \<and> merged_section d (allDevDependencies a2) = JObj t \<and> map_of s = map_of t)"
proof -
  let ?F1 = "features_of reg S1" and ?F2 = "features_of reg S2"
  have same: "set ?F1 = set ?F2" using assms(3) by (simp add: set_features_of)
  have compat:
    "\<forall>f \<in> set ?F1. \<forall>f' \<in> set ?F1.
       agree (feat_dependencies f) (feat_dependencies f')
       \<and> agree (feat_devDependencies f) (feat_devDependencies f')"
    using assms(4) by (auto simp: set_features_of)
  have c1: "\<forall>M \<in> set (map (\<lambda>f. assigned (feat_dependencies f)) ?F1).
            \<forall>M' \<in> set (map (\<lambda>f. assigned (feat_dependencies f)) ?F1).
            \<forall>p v v'. M p = Some v \<and> M' p = Some v' \<longrightarrow> v = v'"
    using compat by (auto simp: agree_def assigned_def restrict_map_def split: if_splits)
  have c2: "\<forall>M \<in> set (map (\<lambda>f. assigned (feat_devDependencies f)) ?F1).
            \<forall>M' \<in> set (map (\<lambda>f. assigned (feat_devDependencies f)) ?F1).
            \<forall>p v v'. M p = Some v \<and> M' p = Some v' \<longrightarrow> v = v'"
    using compat by (auto simp: agree_def assigned_def restrict_map_def split: if_splits)
  have s1: "set (map (\<lambda>f. assigned (feat_dependencies f)) ?F1)
            = set (map (\<lambda>f. assigned (feat_dependencies f)) ?F2)"
    using same by simp
  have s2: "set (map (\<lambda>f. assigned (feat_devDependencies f)) ?F1)
            = set (map (\<lambda>f. assigned (feat_devDependencies f)) ?F2)"
    using same by simp
  note r1 = apply_features_collects [OF assms(1)] and r2 = apply_features_collects [OF assms(2)]
  have deps: "map_of (allDependencies a1) = map_of (allDependencies a2)"
    using r1 r2 foldl_map_add_same_set [OF c1 s1] by simp
  have dev: "map_of (allDevDependencies a1) = map_of (allDevDependencies a2)"
    using r1 r2 foldl_map_add_same_set [OF c2 s2] by simp
  have d1: "distinct (map fst (allDependencies a1)) \<and> distinct (map fst (allDevDependencies a1))"
    using apply_features_distinct [OF assms(1)] by simp
  have d2: "distinct (map fst (allDependencies a2)) \<and> distinct (map fst (allDevDependencies a2))"
    using apply_features_distinct [OF assms(2)] by simp
  have m1: "\<forall>d. \<exists>s t. merged_section d (allDependencies a1) = JObj s
                  \<and> merged_section d (allDependencies a2) = JObj t \<and> map_of s = map_of t"
    using deps d1 d2 by (intro allI merged_section_maps) simp_all
  have m2: "\<forall>d. \<exists>s t. merged_section d (allDevDependencies a1) = JObj s
                  \<and> merged_section d (allDevDependencies a2) = JObj t \<and> map_of s = map_of t"
    using dev d1 d2 by (intro allI merged_section_maps) simp_all
  from deps dev m1 m2 show ?thesis by blast
qed

theorem dependency_maps_order_independent_witness:
  "apply_features
     \<lparr>copyDirectory = (\<lambda>fs src dest. (Inr (), fs)),
      processAllTemplateVariables = (\<lambda>fs dir name. (Inr (), fs)),
      copyModuleFiles = (\<lambda>fs src dest files. (Inr (), fs)),
      glob_markers = (\<lambda>fs dir. []), path_resolve = path_join,
      path_basename = (\<lambda>p. last (split_path p))\<rparr>
     \<lparr>currentDir = ''/w'', TEMPLATE_ROOT = ''/t'', BASE_TEMPLATE_DIR = ''/t/templates/base'',
      MODULES_DIR = ''/t/templates/modules''\<rparr>
     [(''queue'', \<lparr>feat_name = ''Queue'', feat_files = None,
         feat_dependencies = Some [(''bullmq'', JStr ''^5.0.0''), (''ioredis'', JStr ''^5.3.0'')],
         feat_devDependencies = None, feat_injections = None\<rparr>),
      (''workers'', \<lparr>feat_name = ''Workers'', feat_files = None,
         feat_dependencies = Some [(''ioredis'', JStr ''^5.3.0''), (''pino'', JStr ''^9.0.0'')],
         feat_devDependencies = None, feat_injections = None\<rparr>)]
     ''/w'' [] \<lparr>allDependencies = [], allDevDependencies = [], injectedMarkers = []\<rparr>
     [''queue'', ''workers'']
   = (Inr \<lparr>allDependencies = [(''bullmq'', JStr ''^5.0.0''), (''ioredis'', JStr ''^5.3.0''),
                                 (''pino'', JStr ''^9.0.0'')],
            allDevDependencies = [], injectedMarkers = []\<rparr>, [])
   \<and> apply_features
     \<lparr>copyDirectory = (\<lambda>fs src dest. (Inr (), fs)),
      processAllTemplateVariables = (\<lambda>fs dir name. (Inr (), fs)),
      copyModuleFiles = (\<lambda>fs src dest files. (Inr (), fs)),
      glob_markers = (\<lambda>fs dir. []), path_resolve = path_join,
      path_basename = (\<lambda>p. last (split_path p))\<rparr>
     \<lparr>currentDir = ''/w'', TEMPLATE_ROOT = ''/t'', BASE_TEMPLATE_DIR = ''/t/templates/base'',
      MODULES_DIR = ''/t/templates/modules''\<rparr>
     [(''queue'', \<lparr>feat_name = ''Queue'', feat_files = None,
         feat_dependencies = Some [(''bullmq'', JStr ''^5.0.0''), (''ioredis'', JStr ''^5.3.0'')],
         feat_devDependencies = None, feat_injections = None\<rparr>),
      (''workers'', \<lparr>feat_name = ''Workers'', feat_files = None,
         feat_dependencies = Some [(''ioredis'', JStr ''^5.3.0''), (''pino'', JStr ''^9.0.0'')],
         feat_devDependencies = None, feat_injections = None\<rparr>)]
     ''/w'' [] \<lparr>allDependencies = [], allDevDependencies = [], injectedMarkers = []\<rparr>
     [''workers'', ''queue'']
   = (Inr \<lparr>allDependencies = [(''ioredis'', JStr ''^5.3.0''), (''pino'', JStr ''^9.0.0''),
                                 (''bullmq'', JStr ''^5.0.0'')],
            allDevDependencies = [], injectedMarkers = []\<rparr>, [])
   \<and> map_of [(''bullmq'', JStr ''^5.0.0''), (''ioredis'', JStr ''^5.3.0''), (''pino'', JStr ''^9.0.0'')]
     = map_of [(''ioredis'', JStr ''^5.3.0''), (''pino'', JStr ''^9.0.0''), (''bullmq'', JStr ''^5.0.0'')]"
proof -
  let ?X = "\<lparr>copyDirectory = (\<lambda>(fs :: filesystem) (src :: string) (dest :: string). (Inr (), fs) :: unit io),
      processAllTemplateVariables = (\<lambda>(fs :: filesystem) (dir :: string) (name :: string). (Inr (), fs) :: unit io),
      copyModuleFiles = (\<lambda>(fs :: filesystem) (src :: string) (dest :: string) (files :: string list). (Inr (), fs) :: unit io),
      glob_markers = (\<lambda>(fs :: filesystem) (dir :: string). [] :: string list), path_resolve = path_join,
      path_basename = (\<lambda>p. last (split_path p))\<rparr>"
  let ?loc = "\<lparr>currentDir = ''/w'', TEMPLATE_ROOT = ''/t'',
      BASE_TEMPLATE_DIR = ''/t/templates/base'', MODULES_DIR = ''/t/templates/modules''\<rparr>"
  let ?q = "\<lparr>feat_name = ''Queue'', feat_files = None,
         feat_dependencies = Some [(''bullmq'', JStr ''^5.0.0''), (''ioredis'', JStr ''^5.3.0'')],
         feat_devDependencies = None, feat_injections = None\<rparr>"
  let ?w = "\<lparr>feat_name = ''Workers'', feat_files = None,
         feat_dependencies = Some [(''ioredis'', JStr ''^5.3.0''), (''pino'', JStr ''^9.0.0'')],
         feat_devDependencies = None, feat_injections = None\<rparr>"
  let ?reg = "[(''queue'', ?q), (''workers'', ?w)]"
  let ?acc = "\<lparr>allDependencies = [], allDevDependencies = [], injectedMarkers = []\<rparr>"
  let ?a1 = "\<lparr>allDependencies = [(''bullmq'', JStr ''^5.0.0''), (''ioredis'', JStr ''^5.3.0''),
                                 (''pino'', JStr ''^9.0.0'')],
            allDevDependencies = [], injectedMarkers = []\<rparr>"
  let ?a2 = "\<lparr>allDependencies = [(''ioredis'', JStr ''^5.3.0''), (''pino'', JStr ''^9.0.0''),
                                 (''bullmq'', JStr ''^5.0.0'')],
            allDevDependencies = [], injectedMarkers = []\<rparr>"
  have 1: "apply_features ?X ?loc ?reg ''/w'' [] ?acc [''queue'', ''workers''] = (Inr ?a1, [])"
    by (simp add: run_eval json_eval)
  have 2: "apply_features ?X ?loc ?reg ''/w'' [] ?acc [''workers'', ''queue''] = (Inr ?a2, [])"
    by (simp add: run_eval json_eval)
  have 3: "set [''queue'', ''workers''] = set [''workers'', ''queue'']" by auto
  have 4: "\<forall>k \<in> set [''queue'', ''workers'']. \<forall>k' \<in> set [''queue'', ''workers'']. \<forall>f f'.
           map_of ?reg k = Some f \<and> map_of ?reg k' = Some f' \<longrightarrow>
             agree (feat_dependencies f) (feat_dependencies f')
             \<and> agree (feat_devDependencies f) (feat_devDependencies f')"
    by (auto simp: agree_def declared_def split: if_splits)
  from dependency_maps_order_independent [OF 1 2 3 4] 1 2 show ?thesis by simp
qed

text \<open>
  The claim as stated fails when two selected features declare one package with two
  versions: the feature selected later wins.
\<close>

theorem dependency_maps_order_independent_counterexample:
  "apply_features
     \<lparr>copyDirectory = (\<lambda>fs src dest. (Inr (), fs)),
      processAllTemplateVariables = (\<lambda>fs dir name. (Inr (), fs)),
      copyModuleFiles = (\<lambda>fs src dest files. (Inr (), fs)),
      glob_markers = (\<lambda>fs dir. []), path_resolve = path_join,
      path_basename = (\<lambda>p. last (split_path p))\<rparr>
     \<lparr>currentDir = ''/w'', TEMPLATE_ROOT = ''/t'', BASE_TEMPLATE_DIR = ''/t/templates/base'',
      MODULES_DIR = ''/t/templates/modules''\<rparr>
     [(''queue'', \<lparr>feat_name = ''Queue'', feat_files = None,
         feat_dependencies = Some [(''ioredis'', JStr ''^4.0.0'')],
         feat_devDependencies = None, feat_injections = None\<rparr>),
      (''workers'', \<lparr>feat_name = ''Workers'', feat_files = None,
         feat_dependencies = Some [(''ioredis'', JStr ''^5.3.0'')],
         feat_devDependencies = None, feat_injections = None\<rparr>)]
     ''/w'' [] \<lparr>allDependencies = [], allDevDependencies = [], injectedMarkers = []\<rparr>
     [''queue'', ''workers'']
   = (Inr \<lparr>allDependencies = [(''ioredis'', JStr ''^5.3.0'')],
            allDevDependencies = [], injectedMarkers = []\<rparr>, [])
   \<and> apply_features
     \<lparr>copyDirectory = (\<lambda>fs src dest. (Inr (), fs)),
      processAllTemplateVariables = (\<lambda>fs dir name. (Inr (), fs)),
      copyModuleFiles = (\<lambda>fs src dest files. (Inr (), fs)),
      glob_markers = (\<lambda>fs dir. []), path_resolve = path_join,
      path_basename = (\<lambda>p. last (split_path p))\<rparr>
     \<lparr>currentDir = ''/w'', TEMPLATE_ROOT = ''/t'', BASE_TEMPLATE_DIR = ''/t/templates/base'',
      MODULES_DIR = ''/t/templates/modules''\<rparr>
     [(''queue'', \<lparr>feat_name = ''Queue'', feat_files = None,
         feat_dependencies = Some [(''ioredis'', JStr ''^4.0.0'')],
         feat_devDependencies = None, feat_injections = None\<rparr>),
      (''workers'', \<lparr>feat_name = ''Workers'', feat_files = None,
         feat_dependencies = Some [(''ioredis'', JStr ''^5.3.0'')],
         feat_devDependencies = None, feat_injections = None\<rparr>)]
     ''/w'' [] \<lparr>allDependencies = [], allDevDependencies = [], injectedMarkers = []\<rparr>
     [''workers'', ''queue'']
   = (Inr \<lparr>allDependencies = [(''ioredis'', JStr ''^4.0.0'')],
            allDevDependencies = [], injectedMarkers = []\<rparr>, [])
   \<and> map_of [(''ioredis'', JStr ''^5.3.0'')] \<noteq> map_of [(''ioredis'', JStr ''^4.0.0'')]"
proof -
  have "map_of [(''ioredis'', JStr ''^5.3.0'')] ''ioredis''
          \<noteq> map_of [(''ioredis'', JStr ''^4.0.0'')] ''ioredis''"
    by simp
  then have "map_of [(''ioredis'', JStr ''^5.3.0'')] \<noteq> map_of [(''ioredis'', JStr ''^4.0.0'')]"
    by metis
  then show ?thesis by (simp add: run_eval json_eval)
qed

section \<open>Injection at a marker\<close>

lemma getSubstitution_no_pattern: "\<not> has_pattern t \<Longrightarrow> getSubstitution m b a t = t"
  by (induction m b a t rule: getSubstitution.induct) (auto simp: special_def)

lemma has_pattern_append:
  assumes "\<not> has_pattern xs" and "\<not> has_pattern ys"
    and "ys = [] \<or> \<not> special (hd ys) \<or> xs = [] \<or> last xs \<noteq> CHR ''$''"
  shows "\<not> has_pattern (xs @ ys)"
  using assms
proof (induction xs rule: has_pattern.induct)
  case 1
  then show ?case by simp
next
  case (2 c)
  then show ?case by (cases ys) auto
next
  case (3 c d r)
  then show ?case by auto
qed

lemma replacement_no_pattern:
  assumes "\<not> has_pattern code" and "\<not> has_pattern marker"
  shows "\<not> has_pattern (replacement code marker)"
proof -
  have a: "\<not> has_pattern (''  '' @ marker)"
    using has_pattern_append [of "''  ''" marker] assms(2) by simp
  have b: "\<not> has_pattern ([CHR 0x0A] @ ''  '' @ marker)"
    using has_pattern_append [of "[CHR 0x0A]" "''  '' @ marker"] a by simp
  have "\<not> has_pattern (code @ [CHR 0x0A] @ ''  '' @ marker)"
    using has_pattern_append [of code "[CHR 0x0A] @ ''  '' @ marker"] assms(1) b
    by (simp add: special_def)
  then show ?thesis by (simp add: replacement_def)
qed

lemma injectCode_replaces_first:
  assumes "readFile fs (split_path filePath) = Inr content"
    and "\<not> scripts_style filePath marker"
    and "indexOf content marker = Some i"
    and "\<not> has_pattern code" and "\<not> has_pattern marker"
  shows "injectCode fs filePath marker code =
           (Inr True,
            AList.update (split_path filePath)
              (File (take i content @ code @ [CHR 0x0A] @ ''  '' @ marker
                     @ drop (i + length marker) content)) fs)"
proof -
  have "includes_str content marker" using assms(3) by (simp add: includes_str_def)
  from injectCode_text_found [OF assms(1,2) this]
  show ?thesis
    using assms(3) replacement_no_pattern [OF assms(4,5)]
    by (simp add: replace_str_def getSubstitution_no_pattern replacement_def)
qed

lemma readFile_update:
  "p \<noteq> [] \<Longrightarrow> readFile (AList.update p (File d) fs) p = Inr d"
  by (simp add: readFile_def node_at_update)

lemma readFile_nonroot: "readFile fs p = Inr c \<Longrightarrow> p \<noteq> []"
  by (auto simp: readFile_def node_at_def split: option.splits node.splits)

lemma set_add_idem: "set_add m (set_add m ms) = set_add m ms"
  by (simp add: set_add_def)

lemma apply_injections_stack:
  assumes "readFile fs (split_path (path_join targetDir file)) = Inr (pre @ marker @ post)"
    and "\<not> scripts_style (path_join targetDir file) marker"
    and "\<not> has_pattern marker" and "\<forall>c \<in> set cs. \<not> has_pattern c"
    and "\<forall>k \<le> length cs.
           indexOf (pre @ stacked (take k cs) @ marker @ post) marker
             = Some (length (pre @ stacked (take k cs)))"
  shows "\<exists>fs'. apply_injections fs targetDir ms
                 (map (\<lambda>c. \<lparr>inj_file = file, inj_marker = marker, inj_code = c\<rparr>) cs)
               = (Inr (if cs = [] then ms else set_add marker ms), fs')
             \<and> readFile fs' (split_path (path_join targetDir file))
                 = Inr (pre @ stacked cs @ marker @ post)
             \<and> (\<forall>q. q \<noteq> split_path (path_join targetDir file) \<longrightarrow> node_at fs' q = node_at fs q)"
  using assms
proof (induction cs arbitrary: fs pre ms)
  case Nil
  then show ?case by (simp add: stacked_def)
next
  case (Cons c cs)
  let ?p = "split_path (path_join targetDir file)"
  let ?pre = "pre @ c @ [CHR 0x0A] @ ''  ''"
  let ?fs1 = "AList.update ?p (File (?pre @ marker @ post)) fs"
  from Cons.prems(5) have "indexOf (pre @ stacked (take 0 (c # cs)) @ marker @ post) marker
      = Some (length (pre @ stacked (take 0 (c # cs))))"
    by blast
  then have first: "indexOf (pre @ marker @ post) marker = Some (length pre)"
    by (simp add: stacked_def)
  from Cons.prems(4) have c: "\<not> has_pattern c" by simp
  have step: "injectCode fs (path_join targetDir file) marker c = (Inr True, ?fs1)"
    using injectCode_replaces_first [OF Cons.prems(1,2) first c Cons.prems(3)] by simp
  have nonroot: "?p \<noteq> []" using Cons.prems(1) by (rule readFile_nonroot)
  then have read1: "readFile ?fs1 ?p = Inr (?pre @ marker @ post)" by (rule readFile_update)
  have rest: "\<forall>k \<le> length cs.
           indexOf (?pre @ stacked (take k cs) @ marker @ post) marker
             = Some (length (?pre @ stacked (take k cs)))"
  proof (intro allI impI)
    fix k assume "k \<le> length cs"
    then have "Suc k \<le> length (c # cs)" by simp
    with Cons.prems(5)
    have "indexOf (pre @ stacked (take (Suc k) (c # cs)) @ marker @ post) marker
            = Some (length (pre @ stacked (take (Suc k) (c # cs))))"
      by blast
    then show "indexOf (?pre @ stacked (take k cs) @ marker @ post) marker
             = Some (length (?pre @ stacked (take k cs)))"
      by (simp add: stacked_def)
  qed
  from Cons.prems(4) have cs: "\<forall>c \<in> set cs. \<not> has_pattern c" by simp
  from Cons.IH [OF read1 Cons.prems(2,3) cs rest, of "set_add marker ms"]
  obtain fs' where
    run: "apply_injections ?fs1 targetDir (set_add marker ms)
            (map (\<lambda>c. \<lparr>inj_file = file, inj_marker = marker, inj_code = c\<rparr>) cs)
          = (Inr (if cs = [] then set_add marker ms else set_add marker (set_add marker ms)), fs')"
    and content: "readFile fs' ?p = Inr (?pre @ stacked cs @ marker @ post)"
    and frame: "\<forall>q. q \<noteq> ?p \<longrightarrow> node_at fs' q = node_at ?fs1 q"
    by blast
  have "apply_injections fs targetDir ms
          (map (\<lambda>c. \<lparr>inj_file = file, inj_marker = marker, inj_code = c\<rparr>) (c # cs))
        = (Inr (set_add marker ms), fs')"
    using step run by (simp add: set_add_idem)
  moreover have "readFile fs' ?p = Inr (pre @ stacked (c # cs) @ marker @ post)"
    using content by (simp add: stacked_def)
  moreover have "\<forall>q. q \<noteq> ?p \<longrightarrow> node_at fs' q = node_at fs q"
    using frame by (simp add: node_at_update)
  ultimately show ?case by auto
qed

text \<open>
  Claim C1, as amended. The file exists and is on the generic text path (its path does
  not end in \<^verbatim>\<open>package.json\<close>, or the marker does not contain \<^verbatim>\<open>WORKERS_SCRIPTS\<close>); its
  content is \<open>pre @ marker @ post\<close> with the first occurrence of the marker after \<open>pre\<close>;
  the marker and the codes have no replacement pattern (\<^verbatim>\<open>$$\<close>, \<^verbatim>\<open>$&\<close>, \<^verbatim>\<open>$`\<close>, \<^verbatim>\<open>$'\<close>).
  Then \<open>injectCode\<close> replaces that occurrence with the code, a newline, two spaces and the
  marker, writes the file and returns \<open>applied = true\<close>. Injections of the codes \<open>c # cs\<close>
  at the same marker, in this order, leave the codes before the marker in this order,
  each followed by a newline and two spaces, as long as at every step the first
  occurrence of the marker is the one that was kept. No other file changes.
\<close>

theorem injectCode_appends_before_marker:
  assumes "readFile fs (split_path (path_join targetDir file)) = Inr (pre @ marker @ post)"
    and "\<not> scripts_style (path_join targetDir file) marker"
    and "\<not> has_pattern marker" and "\<forall>x \<in> set (c # cs). \<not> has_pattern x"
    and "\<forall>k \<le> length (c # cs).
           indexOf (pre @ stacked (take k (c # cs)) @ marker @ post) marker
             = Some (length (pre @ stacked (take k (c # cs))))"
  shows "injectCode fs (path_join targetDir file) marker c
           = (Inr True,
              AList.update (split_path (path_join targetDir file))
                (File (pre @ c @ [CHR 0x0A] @ ''  '' @ marker @ post)) fs)
         \<and> (\<exists>fs'. apply_injections fs targetDir ms
                     (map (\<lambda>x. \<lparr>inj_file = file, inj_marker = marker, inj_code = x\<rparr>) (c # cs))
                   = (Inr (set_add marker ms), fs')
                 \<and> readFile fs' (split_path (path_join targetDir file))
                     = Inr (pre @ stacked (c # cs) @ marker @ post)
                 \<and> (\<forall>q. q \<noteq> split_path (path_join targetDir file)
                          \<longrightarrow> node_at fs' q = node_at fs q))"
proof -
  from assms(5) have "indexOf (pre @ stacked (take 0 (c # cs)) @ marker @ post) marker
      = Some (length (pre @ stacked (take 0 (c # cs))))"
    by blast
  then have first: "indexOf (pre @ marker @ post) marker = Some (length pre)"
    by (simp add: stacked_def)
  from assms(4) have c: "\<not> has_pattern c" by simp
  from injectCode_replaces_first [OF assms(1,2) first c assms(3)]
  have "injectCode fs (path_join targetDir file) marker c
           = (Inr True,
              AList.update (split_path (path_join targetDir file))
                (File (pre @ c @ [CHR 0x0A] @ ''  '' @ marker @ post)) fs)"
    by simp
  moreover from apply_injections_stack [OF assms, of ms]
  have "\<exists>fs'. apply_injections fs targetDir ms
                 (map (\<lambda>x. \<lparr>inj_file = file, inj_marker = marker, inj_code = x\<rparr>) (c # cs))
               = (Inr (set_add marker ms), fs')
             \<and> readFile fs' (split_path (path_join targetDir file))
                 = Inr (pre @ stacked (c # cs) @ marker @ post)
             \<and> (\<forall>q. q \<noteq> split_path (path_join targetDir file) \<longrightarrow> node_at fs' q = node_at fs q)"
    by simp
  ultimately show ?thesis by blast
qed

theorem injectCode_appends_before_marker_witness:
  "apply_injections
     [([''p''], Dir),
      ([''p'', ''config.ts''], File (''cfg = {'' @ [CHR 0x0A] @ ''  // INJECT:CONFIG'' @ [CHR 0x0A] @ ''}''))]
     ''/p'' []
     [\<lparr>inj_file = ''config.ts'', inj_marker = ''// INJECT:CONFIG'', inj_code = ''a: 1,''\<rparr>,
      \<lparr>inj_file = ''config.ts'', inj_marker = ''// INJECT:CONFIG'', inj_code = ''b: `${x}`,''\<rparr>]
   = (Inr [''// INJECT:CONFIG''],
      [([''p''], Dir),
       ([''p'', ''config.ts''],
        File (''cfg = {'' @ [CHR 0x0A] @ ''  a: 1,'' @ [CHR 0x0A] @ ''  b: `${x}`,'' @ [CHR 0x0A]
              @ ''  // INJECT:CONFIG'' @ [CHR 0x0A] @ ''}''))])"
proof -
  let ?start = "[([''p''], Dir),
      ([''p'', ''config.ts''],
       File (''cfg = {'' @ [CHR 0x0A] @ ''  // INJECT:CONFIG'' @ [CHR 0x0A] @ ''}''))]"
  let ?pre = "''cfg = {'' @ [CHR 0x0A] @ ''  ''" and ?post = "[CHR 0x0A] @ ''}''"
  let ?m = "''// INJECT:CONFIG''"
  have 1: "readFile ?start (split_path (path_join ''/p'' ''config.ts'')) = Inr (?pre @ ?m @ ?post)"
    by (simp add: fs_eval path_eval)
  have 2: "\<not> scripts_style (path_join ''/p'' ''config.ts'') ?m"
    by (simp add: scripts_style_def str_eval path_eval)
  have 3: "\<not> has_pattern ?m" by (simp add: special_def)
  have 4: "\<forall>x \<in> set (''a: 1,'' # [''b: `${x}`,'']). \<not> has_pattern x"
    by (simp add: special_def)
  have 5: "\<forall>k \<le> length (''a: 1,'' # [''b: `${x}`,'']).
             indexOf (?pre @ stacked (take k (''a: 1,'' # [''b: `${x}`,''])) @ ?m @ ?post) ?m
               = Some (length (?pre @ stacked (take k (''a: 1,'' # [''b: `${x}`,'']))))"
    by (simp add: le_Suc_eq stacked_def all_conj_distrib)
  from injectCode_appends_before_marker [OF 1 2 3 4 5, of "[]"]
  obtain fs' where
    a: "apply_injections ?start ''/p'' []
         (map (\<lambda>x. \<lparr>inj_file = ''config.ts'', inj_marker = ?m, inj_code = x\<rparr>)
            (''a: 1,'' # [''b: `${x}`,''])) = (Inr (set_add ?m []), fs')"
    by blast
  have "apply_injections ?start ''/p'' []
         (map (\<lambda>x. \<lparr>inj_file = ''config.ts'', inj_marker = ?m, inj_code = x\<rparr>)
            (''a: 1,'' # [''b: `${x}`,'']))
        = (Inr [''// INJECT:CONFIG''],
      [([''p''], Dir),
       ([''p'', ''config.ts''],
        File (''cfg = {'' @ [CHR 0x0A] @ ''  a: 1,'' @ [CHR 0x0A] @ ''  b: `${x}`,'' @ [CHR 0x0A]
              @ ''  // INJECT:CONFIG'' @ [CHR 0x0A] @ ''}''))])"
    by (simp add: inject_eval fs_eval str_eval path_eval set_add_def)
  with a show ?thesis by simp
qed

text \<open>
  The claim as stated fails in three ways: two spaces stand between the newline and the
  marker; in the code \<^verbatim>\<open>$$\<close> is a replacement pattern and leaves one dollar sign; and in a
  manifest the marker line is removed and the scripts are merged.
\<close>

theorem injectCode_appends_before_marker_counterexample:
  \<open>injectCode [([''p''], Dir), ([''p'', ''a.ts''], File ''// INJECT:A'')]
      ''/p/a.ts'' ''// INJECT:A'' ''x''
     = (Inr True, [([''p''], Dir), ([''p'', ''a.ts''], File (''x'' @ [CHR 0x0A] @ ''  // INJECT:A''))])
   \<and> ''x'' @ [CHR 0x0A] @ ''  // INJECT:A'' \<noteq> ''x'' @ [CHR 0x0A] @ ''// INJECT:A''
   \<and> injectCode [([''p''], Dir), ([''p'', ''a.ts''], File ''// INJECT:A'')]
      ''/p/a.ts'' ''// INJECT:A'' ''cost = $$5''
     = (Inr True,
        [([''p''], Dir), ([''p'', ''a.ts''], File (''cost = $5'' @ [CHR 0x0A] @ ''  // INJECT:A''))])
   \<and> injectCode
        [([''p''], Dir),
         ([''p'', ''package.json''],
          File (''{'' @ [CHR 0x0A] @ ''// INJECT:WORKERS_SCRIPTS'' @ [CHR 0x0A] @ ''}''))]
        ''/p/package.json'' ''// INJECT:WORKERS_SCRIPTS'' ''"w": "x"''
     = (Inr True,
        [([''p''], Dir),
         ([''p'', ''package.json''],
          File (''{'' @ [CHR 0x0A] @ ''  "scripts": {'' @ [CHR 0x0A] @ ''    "w": "x"''
                @ [CHR 0x0A] @ ''  }'' @ [CHR 0x0A] @ ''}'' @ [CHR 0x0A]))])\<close>
  by (simp add: inject_eval fs_eval str_eval json_eval)

section \<open>Lines\<close>

lemma split_lines_not_Nil [simp]: "split_lines s \<noteq> []"
  by (cases s) auto

lemma lt_is_space: "is_line_terminator c \<Longrightarrow> is_space c"
  by (auto simp: is_line_terminator_def is_space_def)

lemma split_lines_no_lt:
  "\<forall>c \<in> set u. \<not> is_line_terminator c \<Longrightarrow>
     split_lines (u @ s) = (u @ hd (split_lines s)) # tl (split_lines s)"
  by (induction u) auto

lemma trim_space_Cons: "is_space c \<Longrightarrow> trim (c # l) = trim l"
  by (simp add: trim_def)

lemma trim_Nil [simp]: "trim [] = []"
  by (simp add: trim_def)

lemma trim_spaces: "list_all is_space w \<Longrightarrow> trim (w @ l) = trim l"
  by (induction w) (auto simp: trim_space_Cons)

lemma trim_all_space: "list_all is_space w \<Longrightarrow> trim w = []"
  using trim_spaces [of w "[]"] by simp

lemma trim_marker:
  assumes "wf_marker m" and "list_all is_space w"
  shows "trim (m @ w) = m"
proof -
  from assms(1) obtain c cs where m: "m = c # cs" and c: "\<not> is_space c"
    by (cases m) (auto simp: wf_marker_def)
  from assms(1) have l: "\<not> is_space (last m)" and ne: "m \<noteq> []"
    by (auto simp: wf_marker_def)
  have "dropWhile is_space (m @ w) = m @ w" using m c by simp
  moreover have "dropWhile is_space (rev (m @ w)) = rev m"
  proof -
    have "rev (m @ w) = rev w @ rev m" by simp
    moreover have "\<forall>x \<in> set (rev w). is_space x" using assms(2) by (simp add: list_all_iff)
    moreover have "rev m \<noteq> []" "\<not> is_space (hd (rev m))"
      using l ne by (simp_all add: hd_rev)
    ultimately show ?thesis
      by (metis dropWhile_append2 dropWhile_eq_Nil_conv dropWhile.simps(2) list.collapse)
  qed
  ultimately show ?thesis by (simp add: trim_def)
qed

section \<open>What the marker-line expression matches\<close>

lemma match_trailing_shape:
  "match_trailing r = Some j \<Longrightarrow>
     j \<le> length r \<and> list_all is_space (take j r) \<and> at_line_end (drop j r)"
proof (induction r arbitrary: j)
  case Nil
  then show ?case by (simp add: at_line_end_def)
next
  case (Cons c cs)
  show ?case
  proof (cases "match_trailing cs")
    case None
    with Cons.prems show ?thesis by (auto simp: at_line_end_def split: if_splits)
  next
    case (Some j')
    with Cons.prems have "j = Suc j'" and "is_space c" by (auto split: if_splits)
    with Cons.IH [OF Some] show ?thesis by simp
  qed
qed

lemma match_literal_shape:
  assumes "match_literal m r = Some n"
  shows "\<exists>w. take n r = m @ w \<and> n \<le> length r \<and> list_all is_space w \<and> at_line_end (drop n r)"
proof -
  from assms obtain j where p: "prefix m r" and j: "match_trailing (drop (length m) r) = Some j"
    and n: "n = length m + j"
    by (auto simp: match_literal_def split: if_splits)
  from p obtain r' where r: "r = m @ r'" by (auto simp: prefix_def)
  with j have "match_trailing r' = Some j" by simp
  from match_trailing_shape [OF this] r n show ?thesis by auto
qed

lemma match_marker_line_shape:
  "match_marker_line m s = Some n \<Longrightarrow>
     \<exists>w1 w2. take n s = w1 @ m @ w2 \<and> n \<le> length s
       \<and> list_all is_space w1 \<and> list_all is_space w2 \<and> at_line_end (drop n s)"
proof (induction s arbitrary: n)
  case Nil
  then have "match_literal m [] = Some n" by simp
  from match_literal_shape [OF this] show ?case by fastforce
next
  case (Cons c cs)
  have lit: "match_literal m (c # cs) = Some n \<Longrightarrow> ?case"
  proof -
    assume "match_literal m (c # cs) = Some n"
    from match_literal_shape [OF this] obtain w where
      "take n (c # cs) = [] @ m @ w \<and> n \<le> length (c # cs) \<and> list_all is_space []
        \<and> list_all is_space w \<and> at_line_end (drop n (c # cs))"
      by auto
    then show ?case by blast
  qed
  show ?case
  proof (cases "is_space c")
    case False
    with Cons.prems lit show ?thesis by simp
  next
    case True
    show ?thesis
    proof (cases "match_marker_line m cs")
      case None
      with True Cons.prems lit show ?thesis by simp
    next
      case (Some l)
      with True Cons.prems have n: "n = Suc l" by simp
      from Cons.IH [OF Some] obtain w1 w2 where
        "take l cs = w1 @ m @ w2" "l \<le> length cs" "list_all is_space w1"
        "list_all is_space w2" "at_line_end (drop l cs)"
        by blast
      with True n have
        "take n (c # cs) = (c # w1) @ m @ w2 \<and> n \<le> length (c # cs)
          \<and> list_all is_space (c # w1) \<and> list_all is_space w2 \<and> at_line_end (drop n (c # cs))"
        by simp
      then show ?thesis by blast
    qed
  qed
qed

section \<open>What the removal of marker lines keeps\<close>

text \<open>
  \<open>Q\<close> is a property of trimmed lines that no blank line and no line of the marker has.
  The lines with \<open>Q\<close> are the same before and after the removal.
\<close>

lemma first_line_after_spaces:
  assumes "list_all is_space w"
  shows "trim (hd (split_lines (w @ r))) = [] \<or> trim (hd (split_lines (w @ r))) = trim (hd (split_lines r))"
  using assms
proof (induction w)
  case Nil
  then show ?case by simp
next
  case (Cons c w)
  then show ?case by (auto simp: trim_space_Cons)
qed

lemma filter_tl_lines:
  assumes "\<not> Q (trim (hd (split_lines x)))"
  shows "filter (\<lambda>l. Q (trim l)) (tl (split_lines x)) = filter (\<lambda>l. Q (trim l)) (split_lines x)"
proof (cases "split_lines x")
  case Nil
  then show ?thesis by simp
next
  case (Cons l ls)
  with assms show ?thesis by simp
qed

lemma filter_lines_spaces:
  assumes "\<not> Q []" and "list_all is_space w" and "\<not> Q (trim (hd (split_lines r)))"
  shows "filter (\<lambda>l. Q (trim l)) (split_lines (w @ r))
           = filter (\<lambda>l. Q (trim l)) (tl (split_lines r))"
  using assms(2)
proof (induction w)
  case Nil
  from filter_tl_lines [of Q r, OF assms(3)] show ?case by simp
next
  case (Cons c w)
  then have IH: "filter (\<lambda>l. Q (trim l)) (split_lines (w @ r))
                   = filter (\<lambda>l. Q (trim l)) (tl (split_lines r))"
    and c: "is_space c" and w: "list_all is_space w" by simp_all
  let ?L = "split_lines (w @ r)"
  from first_line_after_spaces [OF w, of r] assms(1,3)
  have first: "\<not> Q (trim (hd ?L))" by auto
  have tail: "filter (\<lambda>l. Q (trim l)) (tl ?L) = filter (\<lambda>l. Q (trim l)) ?L"
    using first by (rule filter_tl_lines [of Q "w @ r"])
  show ?case
  proof (cases "is_line_terminator c")
    case True
    with IH assms(1) show ?thesis by simp
  next
    case False
    then have "split_lines ((c # w) @ r) = (c # hd ?L) # tl ?L" by simp
    moreover have "\<not> Q (trim (c # hd ?L))" using first c by (simp add: trim_space_Cons)
    ultimately have "filter (\<lambda>l. Q (trim l)) (split_lines ((c # w) @ r))
                       = filter (\<lambda>l. Q (trim l)) (tl ?L)"
      by simp
    with tail IH show ?thesis by simp
  qed
qed

lemma first_line_at_line_end: "at_line_end r \<Longrightarrow> hd (split_lines r) = []"
  by (cases r) (auto simp: at_line_end_def)

lemma first_line_spaces:
  assumes "list_all is_space w" and "at_line_end r"
  shows "list_all is_space (hd (split_lines (w @ r)))"
  using assms
proof (induction w)
  case Nil
  then show ?case by (simp add: first_line_at_line_end)
next
  case (Cons c w)
  then show ?case by auto
qed

lemma filter_lines_match:
  assumes Q: "\<not> Q []" "\<not> Q m" and m: "wf_marker m"
    and w: "list_all is_space w1" "list_all is_space w2" and r: "at_line_end r"
  shows "filter (\<lambda>l. Q (trim l)) (split_lines (w1 @ m @ w2 @ r))
           = filter (\<lambda>l. Q (trim l)) (split_lines r)"
proof -
  let ?x = "w2 @ r"
  have nolt: "\<forall>c \<in> set m. \<not> is_line_terminator c" using m by (simp add: wf_marker_def)
  have sp: "list_all is_space (hd (split_lines ?x))" using w(2) r by (rule first_line_spaces)
  have mx: "split_lines (m @ ?x) = (m @ hd (split_lines ?x)) # tl (split_lines ?x)"
    using nolt by (rule split_lines_no_lt)
  then have hd_mx: "\<not> Q (trim (hd (split_lines (m @ ?x))))"
    using Q(2) trim_marker [OF m sp] by simp
  have r0: "\<not> Q (trim (hd (split_lines r)))"
    using Q(1) r by (simp add: first_line_at_line_end)
  have x0: "\<not> Q (trim (hd (split_lines ?x)))"
    using Q(1) trim_all_space [OF sp] by simp
  have "filter (\<lambda>l. Q (trim l)) (split_lines (w1 @ m @ ?x))
          = filter (\<lambda>l. Q (trim l)) (tl (split_lines (m @ ?x)))"
    using Q(1) w(1) hd_mx by (rule filter_lines_spaces [of Q w1 "m @ ?x"])
  also have "\<dots> = filter (\<lambda>l. Q (trim l)) (tl (split_lines ?x))"
    using mx by simp
  also have "\<dots> = filter (\<lambda>l. Q (trim l)) (split_lines ?x)"
    using x0 by (rule filter_tl_lines [of Q ?x])
  also have "\<dots> = filter (\<lambda>l. Q (trim l)) (tl (split_lines r))"
    using Q(1) w(2) r0 by (rule filter_lines_spaces [of Q w2 r])
  also have "\<dots> = filter (\<lambda>l. Q (trim l)) (split_lines r)"
    using r0 by (rule filter_tl_lines [of Q r])
  finally show ?thesis by simp
qed

lemma strip_from_keeps:
  assumes Q: "\<not> Q []" "\<not> Q m" and m: "wf_marker m"
  shows "\<forall>c \<in> set u. \<not> is_line_terminator c \<Longrightarrow> (bol \<longrightarrow> u = []) \<Longrightarrow>
           filter (\<lambda>l. Q (trim l)) (split_lines (u @ strip_from m bol s))
             = filter (\<lambda>l. Q (trim l)) (split_lines (u @ s))"
  using Q m
proof (induction m bol s arbitrary: u rule: strip_from.induct)
  case (1 m bol)
  then show ?case by simp
next
  case (2 m bol c cs)
  let ?r = "if bol then match_marker_line m (c # cs) else None"
  have copy: "filter (\<lambda>l. Q (trim l)) (split_lines (u @ c # strip_from m (is_line_terminator c) cs))
                = filter (\<lambda>l. Q (trim l)) (split_lines (u @ c # cs))"
    if IH: "\<And>u. \<forall>c \<in> set u. \<not> is_line_terminator c \<Longrightarrow> (is_line_terminator c \<longrightarrow> u = []) \<Longrightarrow>
              filter (\<lambda>l. Q (trim l)) (split_lines (u @ strip_from m (is_line_terminator c) cs))
                = filter (\<lambda>l. Q (trim l)) (split_lines (u @ cs))"
  proof (cases "is_line_terminator c")
    case True
    have a: "\<And>X. split_lines (u @ c # X) = u # split_lines X"
      using split_lines_no_lt [OF "2.prems"(1), of "c # _"] True by simp
    from IH [of "[]"] True
    have "filter (\<lambda>l. Q (trim l)) (split_lines (strip_from m True cs))
            = filter (\<lambda>l. Q (trim l)) (split_lines cs)"
      by simp
    with a True show ?thesis by simp
  next
    case False
    with "2.prems"(1) have "\<forall>x \<in> set (u @ [c]). \<not> is_line_terminator x" by simp
    from IH [OF this] False show ?thesis by simp
  qed
  show ?case
  proof (cases ?r)
    case None
    with "2.IH"(1) [OF None _ _ "2.prems"(3,4,5)] copy show ?thesis by simp
  next
    case (Some n)
    show ?thesis
    proof (cases n)
      case 0
      with Some "2.IH"(2) [OF Some 0 _ _ "2.prems"(3,4,5)] copy show ?thesis by simp
    next
      case (Suc l)
      with Some have bol: bol and mm: "match_marker_line m (c # cs) = Some (Suc l)"
        by (auto split: if_splits)
      with "2.prems"(2) have u: "u = []" by simp
      from match_marker_line_shape [OF mm] obtain w1 w2 where
        tk: "take (Suc l) (c # cs) = w1 @ m @ w2" and w: "list_all is_space w1" "list_all is_space w2"
        and e: "at_line_end (drop (Suc l) (c # cs))"
        by blast
      have whole: "c # cs = w1 @ m @ w2 @ drop l cs"
        using tk append_take_drop_id [of "Suc l" "c # cs"] by simp
      from e have e': "at_line_end (drop l cs)" by simp
      have "filter (\<lambda>l. Q (trim l)) (split_lines (c # cs))
              = filter (\<lambda>l. Q (trim l)) (split_lines (drop l cs))"
        using filter_lines_match [of Q m w1 w2 "drop l cs", OF "2.prems"(3,4,5) w e'] whole
        by simp
      moreover have "filter (\<lambda>l. Q (trim l))
                       (split_lines (strip_from m (is_line_terminator ((c # cs) ! l)) (drop l cs)))
              = filter (\<lambda>l. Q (trim l)) (split_lines (drop l cs))"
        using "2.IH"(3) [OF Some Suc, of "[]", OF _ _ "2.prems"(3,4,5)] by simp
      ultimately show ?thesis using Some Suc u by simp
    qed
  qed
qed

lemma strip_marker_lines_keeps:
  assumes "\<not> Q []" and "\<not> Q m" and "wf_marker m"
  shows "filter (\<lambda>l. Q (trim l)) (split_lines (strip_marker_lines m s))
           = filter (\<lambda>l. Q (trim l)) (split_lines s)"
  using strip_from_keeps [of Q m "[]" True s, OF assms] by (simp add: strip_marker_lines_def)

lemma remove_markers_keeps:
  assumes "\<not> Q []" and "\<forall>m \<in> set ms. \<not> Q m \<and> wf_marker m"
  shows "filter (\<lambda>l. Q (trim l)) (split_lines (fst (remove_markers ms content modified)))
           = filter (\<lambda>l. Q (trim l)) (split_lines content)"
  using assms(2)
proof (induction ms arbitrary: content modified)
  case Nil
  then show ?case by simp
next
  case (Cons m ms)
  then have m: "\<not> Q m" "wf_marker m" and ms: "\<forall>m \<in> set ms. \<not> Q m \<and> wf_marker m" by simp_all
  show ?case
    using Cons.IH [OF ms] strip_marker_lines_keeps [of Q m content, OF assms(1) m]
    by simp
qed

section \<open>Comment lines\<close>

lemma scan_append:
  "scan b (xs @ ys) = (case scan b xs of None \<Rightarrow> None | Some b' \<Rightarrow> scan b' ys)"
  by (induction xs arbitrary: b) auto

lemma scan_no_lt: "\<forall>c \<in> set t. \<not> is_line_terminator c \<Longrightarrow> scan False t = Some False"
  by (induction t) auto

lemma scan_token:
  assumes "\<not> is_space c" and "\<not> comment_char c" and "\<forall>x \<in> set t. \<not> is_line_terminator x"
  shows "scan b (c # t) = Some False"
  using assms lt_is_space [of c] by (auto simp: scan_no_lt)

lemma scan_spaces:
  "\<forall>c \<in> set w. c = CHR '' '' \<Longrightarrow> scan True w = Some True"
  by (induction w) (auto simp: is_space_def is_line_terminator_def)

lemma comment_line_space: "is_space c \<Longrightarrow> comment_line (c # l) = comment_line l"
  by (simp add: comment_line_def)

lemma comment_line_spaces: "list_all is_space u \<Longrightarrow> comment_line (u @ l) = comment_line l"
  by (induction u) (auto simp: comment_line_space)

lemma comment_line_append:
  "\<not> list_all is_space u \<Longrightarrow> comment_line (u @ l) = comment_line u"
proof (induction u)
  case Nil
  then show ?case by simp
next
  case (Cons c u)
  then show ?case by (cases "is_space c") (auto simp: comment_line_def comment_marker_def)
qed

lemma scan_lines:
  assumes "scan b s \<noteq> None" and "\<forall>c \<in> set u. \<not> is_line_terminator c"
    and "if b then list_all is_space u else \<not> list_all is_space u \<and> \<not> comment_line u"
  shows "\<forall>l \<in> set (split_lines (u @ s)). \<not> comment_line l"
  using assms
proof (induction s arbitrary: b u)
  case Nil
  then have "\<not> comment_line u"
    using comment_line_spaces [of u "[]"]
    by (auto simp: comment_line_def comment_marker_def split: if_splits)
  moreover have "split_lines (u @ []) = [u]"
    using split_lines_no_lt [OF Nil.prems(2), of "[]"] by simp
  ultimately show ?case by simp
next
  case (Cons c cs)
  have u: "\<not> comment_line u"
    using Cons.prems(3) comment_line_spaces [of u "[]"]
    by (auto simp: comment_line_def comment_marker_def split: if_splits)
  show ?case
  proof (cases "is_line_terminator c")
    case True
    with Cons.prems(1) have "scan True cs \<noteq> None" by simp
    from Cons.IH [OF this, of "[]"] have "\<forall>l \<in> set (split_lines cs). \<not> comment_line l"
      by simp
    moreover have "split_lines (u @ c # cs) = u # split_lines cs"
      using split_lines_no_lt [OF Cons.prems(2), of "c # cs"] True by simp
    ultimately show ?thesis using u by simp
  next
    case False
    with Cons.prems(2) have nolt: "\<forall>x \<in> set (u @ [c]). \<not> is_line_terminator x" by simp
    show ?thesis
    proof (cases b)
      case True
      with Cons.prems(3) have sp: "list_all is_space u" by simp
      show ?thesis
      proof (cases "is_space c")
        case True
        with \<open>b\<close> False Cons.prems(1) have "scan True cs \<noteq> None" by simp
        from Cons.IH [OF this nolt] sp True show ?thesis by simp
      next
        case nsp: False
        with \<open>b\<close> False Cons.prems(1) have cc: "\<not> comment_char c" and "scan False cs \<noteq> None"
          by (auto split: if_splits)
        moreover have "\<not> list_all is_space (u @ [c])" using nsp by simp
        moreover have "\<not> comment_line (u @ [c])"
          using sp nsp cc comment_line_spaces [of u "[c]"]
          by (simp add: comment_line_def comment_marker_def)
        ultimately show ?thesis using Cons.IH [of False "u @ [c]"] nolt by simp
      qed
    next
      case nb: False
      with Cons.prems(3) have nsp: "\<not> list_all is_space u" and ncl: "\<not> comment_line u" by simp_all
      from nb False Cons.prems(1) have "scan False cs \<noteq> None" by simp
      moreover have "\<not> list_all is_space (u @ [c])" using nsp by simp
      moreover have "\<not> comment_line (u @ [c])" using nsp ncl by (simp add: comment_line_append)
      ultimately show ?thesis using Cons.IH [of False "u @ [c]"] nolt by simp
    qed
  qed
qed

lemma trim_prefix: "prefix (trim l) (dropWhile is_space l)"
  unfolding trim_def
  by (metis suffix_dropWhile suffix_to_prefix rev_rev_ident)

lemma marker_line_is_comment_line:
  assumes "trim l = m" and "comment_marker m"
  shows "comment_line l"
proof -
  from assms(2) obtain c cs where m: "m = c # cs" and c: "comment_char c"
    by (cases m) (auto simp: comment_marker_def)
  from trim_prefix [of l] assms(1) m obtain r where "dropWhile is_space l = c # cs @ r"
    by (auto simp: prefix_def)
  with c show ?thesis by (simp add: comment_line_def comment_marker_def)
qed

lemma scan_no_marker_lines:
  assumes "scan True s \<noteq> None" and "comment_marker m"
  shows "marker_lines m s = []"
proof -
  from scan_lines [OF assms(1), of "[]"] have a: "\<forall>l \<in> set (split_lines s). \<not> comment_line l"
    by simp
  have "\<forall>l \<in> set (split_lines s). trim l \<noteq> m"
  proof
    fix l assume "l \<in> set (split_lines s)"
    with a have "\<not> comment_line l" by simp
    with assms(2) show "trim l \<noteq> m" using marker_line_is_comment_line [of l m] by blast
  qed
  then show ?thesis by (simp add: marker_lines_def filter_empty_conv)
qed

section \<open>A JSON text has no comment line\<close>

lemma lt_code: "is_line_terminator c \<Longrightarrow> (of_char c :: nat) = 10 \<or> (of_char c :: nat) = 13"
  by (auto simp: is_line_terminator_def)

lemma hex_val_not_lt: "hex_val c = Some n \<Longrightarrow> \<not> is_line_terminator c"
  by (auto simp: hex_val_def Let_def dest!: lt_code split: if_splits)

lemma hex4_not_lt:
  "hex4 a b c d = Some n \<Longrightarrow>
     \<not> is_line_terminator a \<and> \<not> is_line_terminator b \<and> \<not> is_line_terminator c
     \<and> \<not> is_line_terminator d"
  by (auto simp: hex4_def split: option.splits dest: hex_val_not_lt)

lemma unescape_not_lt: "unescape e = Some d \<Longrightarrow> \<not> is_line_terminator e"
  by (auto simp: unescape_def is_line_terminator_def split: if_splits)

lemma str_cons_Inr:
  "str_cons c k r = Inr (s, n) \<Longrightarrow> \<exists>s' n'. r = Inr (s', n') \<and> s = c # s' \<and> n = n' + k"
  by (auto simp: str_cons_def split: sum.splits)

lemma lex_string_no_lt:
  "lex_string cs = Inr (s, n) \<Longrightarrow> \<forall>c \<in> set (take n cs). \<not> is_line_terminator c"
proof (induction cs arbitrary: s n rule: length_induct)
  case (1 cs)
  then have IH: "\<And>r s' n'. length r < length cs \<Longrightarrow> lex_string r = Inr (s', n')
                   \<Longrightarrow> \<forall>c \<in> set (take n' r). \<not> is_line_terminator c"
    by blast
  show ?case
  proof (cases cs)
    case Nil
    then show ?thesis by simp
  next
    case (Cons c r)
    show ?thesis
    proof (cases "c = CHR 0x22")
      case True
      with "1.prems" Cons show ?thesis by (auto simp: is_line_terminator_def)
    next
      case q: False
      show ?thesis
      proof (cases "c = CHR 0x5C")
        case bs: True
        then have c: "\<not> is_line_terminator c" by (simp add: is_line_terminator_def)
        from "1.prems" Cons q bs obtain e es where r: "r = e # es"
          by (cases r) auto
        show ?thesis
        proof (cases "e = CHR ''u''")
          case True
          then have e: "\<not> is_line_terminator e" by (simp add: is_line_terminator_def)
          from "1.prems" Cons q bs r True obtain h1 h2 h3 h4 t k
            where es: "es = h1 # h2 # h3 # h4 # t" and h: "hex4 h1 h2 h3 h4 = Some k"
              and sc: "str_cons (char_of k) 6 (lex_string t) = Inr (s, n)"
            by (auto split: list.splits option.splits if_splits)
          from str_cons_Inr [OF sc] obtain s' n' where t: "lex_string t = Inr (s', n')"
            and n: "n = n' + 6" by blast
          from IH [OF _ t] Cons r es have "\<forall>c \<in> set (take n' t). \<not> is_line_terminator c" by simp
          with hex4_not_lt [OF h] c e Cons r es n show ?thesis
            by (simp add: eval_nat_numeral)
        next
          case False
          with "1.prems" Cons q bs r obtain d
            where u: "unescape e = Some d" and sc: "str_cons d 2 (lex_string es) = Inr (s, n)"
            by (auto split: option.splits)
          from str_cons_Inr [OF sc] obtain s' n' where t: "lex_string es = Inr (s', n')"
            and n: "n = n' + 2" by blast
          from IH [OF _ t] Cons r have "\<forall>c \<in> set (take n' es). \<not> is_line_terminator c" by simp
          with unescape_not_lt [OF u] c Cons r n show ?thesis by simp
        qed
      next
        case False
        with "1.prems" Cons q have big: "\<not> (of_char c :: nat) < 32"
          and sc: "str_cons c 1 (lex_string r) = Inr (s, n)"
          by (auto split: if_splits)
        from big have c: "\<not> is_line_terminator c" by (auto dest: lt_code)
        from str_cons_Inr [OF sc] obtain s' n' where t: "lex_string r = Inr (s', n')"
          and n: "n = n' + 1" by blast
        from IH [OF _ t] Cons have "\<forall>c \<in> set (take n' r). \<not> is_line_terminator c" by simp
        with c Cons n show ?thesis by simp
      qed
    qed
  qed
qed

lemma digit_not_lt: "is_digit c \<Longrightarrow> \<not> is_line_terminator c"
  by (auto simp: is_digit_def dest: lt_code)

lemma prefix_append_drop:
  "prefix a s \<Longrightarrow> prefix b (drop (length a) s) \<Longrightarrow> prefix (a @ b) s"
  by (auto simp: prefix_def)

lemma lex_int_prefix: "lex_int s = Some i \<Longrightarrow> prefix i s"
  by (auto simp: lex_int_def takeWhile_is_prefix split: list.splits if_splits)

lemma lex_frac_prefix: "lex_frac s = Some f \<Longrightarrow> prefix f s"
  by (auto simp: lex_frac_def takeWhile_is_prefix split: list.splits if_splits)

lemma lex_exp_prefix: "lex_exp s = Some e \<Longrightarrow> prefix e s"
proof -
  assume a: "lex_exp s = Some e"
  show ?thesis
  proof (cases s)
    case Nil
    with a show ?thesis by (simp add: lex_exp_def)
  next
    case (Cons c cs)
    let ?sign = "case cs of [] \<Rightarrow> [] | d # ds \<Rightarrow> if d = CHR ''+'' \<or> d = CHR ''-'' then [d] else []"
    have sg: "prefix ?sign cs" by (auto split: list.splits)
    have "prefix (takeWhile is_digit (drop (length ?sign) cs)) (drop (length ?sign) cs)"
      by (rule takeWhile_is_prefix)
    with sg have "prefix (?sign @ takeWhile is_digit (drop (length ?sign) cs)) cs"
      by (rule prefix_append_drop)
    with a Cons show ?thesis
      by (auto simp: lex_exp_def Let_def split: if_splits)
  qed
qed

lemma lex_number_prefix: "lex_number s = Some n \<Longrightarrow> prefix n s"
proof -
  assume a: "lex_number s = Some n"
  let ?sign = "case s of [] \<Rightarrow> [] | c # cs \<Rightarrow> if c = CHR ''-'' then [c] else []"
  from a obtain i f e where i: "lex_int (drop (length ?sign) s) = Some i"
    and f: "lex_frac (drop (length ?sign + length i) s) = Some f"
    and e: "lex_exp (drop (length ?sign + length i + length f) s) = Some e"
    and n: "n = ?sign @ i @ f @ e"
    by (auto simp: lex_number_def Let_def split: option.splits)
  have 1: "prefix ?sign s" by (auto split: list.splits)
  from 1 lex_int_prefix [OF i] have 2: "prefix (?sign @ i) s" by (rule prefix_append_drop)
  from lex_frac_prefix [OF f] have "prefix f (drop (length (?sign @ i)) s)" by simp
  with 2 have 3: "prefix ((?sign @ i) @ f) s" by (rule prefix_append_drop)
  from lex_exp_prefix [OF e] have "prefix e (drop (length ((?sign @ i) @ f)) s)"
    by (simp add: add.assoc)
  with 3 have "prefix (((?sign @ i) @ f) @ e) s" by (rule prefix_append_drop)
  with n show ?thesis by simp
qed

lemma modelled_number_no_lt:
  assumes "modelled_number n"
  shows "\<forall>c \<in> set n. \<not> is_line_terminator c"
proof -
  have "\<forall>c \<in> set n. c = CHR ''-'' \<or> is_digit c"
    using assms
    by (cases n) (auto simp: modelled_number_def Let_def list_all_iff split: if_splits)
  then show ?thesis
  proof (intro ballI)
    fix c assume "\<forall>c \<in> set n. c = CHR ''-'' \<or> is_digit c" and "c \<in> set n"
    then have "c = CHR ''-'' \<or> is_digit c" by simp
    then show "\<not> is_line_terminator c"
    proof
      assume "c = CHR ''-''"
      then show ?thesis by (simp add: is_line_terminator_def)
    next
      assume "is_digit c"
      then show ?thesis by (rule digit_not_lt)
    qed
  qed
qed

lemma scan_consumed:
  assumes "\<forall>x \<in> set (take k cs). \<not> is_line_terminator x" and "scan False (drop k cs) \<noteq> None"
  shows "scan False cs \<noteq> None"
proof -
  have "scan False (take k cs @ drop k cs) = scan False (drop k cs)"
    using scan_no_lt [OF assms(1)] by (simp add: scan_append del: append_take_drop_id)
  with assms(2) show ?thesis by simp
qed

lemma prefix_take: "prefix w cs \<Longrightarrow> take (length w) cs = w"
  by (auto simp: prefix_def)

lemma literal_name_shape:
  assumes "literal_name (c # cs) = Some (t, k)"
  shows "\<not> is_line_terminator c \<and> \<not> is_space c \<and> \<not> comment_char c
         \<and> (\<forall>x \<in> set (take k cs). \<not> is_line_terminator x)"
proof -
  consider (t) "c = CHR ''t''" "prefix ''rue'' cs" "k = 3"
    | (f) "c = CHR ''f''" "prefix ''alse'' cs" "k = 4"
    | (n) "c = CHR ''n''" "prefix ''ull'' cs" "k = 3"
    using assms by (simp add: literal_name_def split: if_splits)
  then show ?thesis
  proof cases
    case t
    from prefix_take [OF t(2)] t(3) have "take k cs = ''rue''" by (simp add: eval_nat_numeral)
    with t(1) show ?thesis
      by (simp add: is_line_terminator_def is_space_def comment_char_def)
  next
    case f
    from prefix_take [OF f(2)] f(3) have "take k cs = ''alse''" by (simp add: eval_nat_numeral)
    with f(1) show ?thesis
      by (simp add: is_line_terminator_def is_space_def comment_char_def)
  next
    case n
    from prefix_take [OF n(2)] n(3) have "take k cs = ''ull''" by (simp add: eval_nat_numeral)
    with n(1) show ?thesis
      by (simp add: is_line_terminator_def is_space_def comment_char_def)
  qed
qed

lemma tokenize_scan: "tokenize s = Inr ts \<Longrightarrow> scan b s \<noteq> None"
proof (induction s arbitrary: ts b rule: length_induct)
  case (1 s)
  then have IH: "\<And>r ts' b'. length r < length s \<Longrightarrow> tokenize r = Inr ts' \<Longrightarrow> scan b' r \<noteq> None"
    by blast
  show ?case
  proof (cases s)
    case Nil
    then show ?thesis by simp
  next
    case (Cons c cs)
    with "1.prems" have "tokenize (c # cs) = Inr ts" by simp
    then show ?thesis
    proof (cases rule: tokenize_Cons_cases)
      case space
      then have "is_space c" by (auto simp: is_json_ws_def is_space_def)
      with IH [of cs ts True] IH [of cs ts False] space Cons show ?thesis by simp
    next
      case (punct t ts')
      then have "\<not> is_space c" "\<not> comment_char c"
        by (auto simp: punctuation_def is_space_def comment_char_def split: if_splits)
      with IH [of cs ts' False] punct Cons lt_is_space [of c] show ?thesis by auto
    next
      case (str x n ts')
      from IH [of "drop n cs" ts' False] str Cons have "scan False (drop n cs) \<noteq> None" by simp
      with lex_string_no_lt [OF str(2)] have "scan False cs \<noteq> None" by (rule scan_consumed)
      with str(1) Cons show ?thesis
        by (simp add: is_line_terminator_def is_space_def comment_char_def)
    next
      case (num n ts')
      from num(1) have c: "\<not> is_line_terminator c" "\<not> is_space c" "\<not> comment_char c"
        by (auto simp: is_line_terminator_def is_space_def comment_char_def is_digit_def)
      from lex_number_prefix [OF num(2)] lex_number_not_Nil [OF num(2)]
      obtain n' where n: "n = c # n'" and p: "prefix n' cs" by (cases n) auto
      then have "take (length n - 1) cs = n'" by (auto simp: prefix_def)
      with modelled_number_no_lt [OF num(3)] n
      have a: "\<forall>x \<in> set (take (length n - 1) cs). \<not> is_line_terminator x" by simp
      from IH [of "drop (length n - 1) cs" ts' False] num Cons
      have "scan False (drop (length n - 1) cs) \<noteq> None" by simp
      with a have "scan False cs \<noteq> None" by (rule scan_consumed)
      with c Cons show ?thesis by simp
    next
      case (name t k ts')
      from literal_name_shape [OF name(3)]
      have c: "\<not> is_line_terminator c" "\<not> is_space c" "\<not> comment_char c"
        and a: "\<forall>x \<in> set (take k cs). \<not> is_line_terminator x"
        by simp_all
      from IH [of "drop k cs" ts' False] name Cons
      have "scan False (drop k cs) \<noteq> None" by simp
      with a have "scan False cs \<noteq> None" by (rule scan_consumed)
      with c Cons show ?thesis by simp
    qed
  qed
qed

lemma JSON_text_no_marker_lines:
  assumes "JSON_parse s = Inr v" and "comment_marker m"
  shows "marker_lines m s = []"
proof -
  from assms(1) obtain ts where "tokenize s = Inr ts"
    by (auto simp: JSON_parse_def split: sum.splits)
  then have "scan True s \<noteq> None" by (rule tokenize_scan)
  then show ?thesis using assms(2) by (rule scan_no_marker_lines)
qed

section \<open>A serialised value has no comment line\<close>

lemma solid_token:
  assumes "\<not> is_space c" and "\<not> comment_char c" and "\<forall>x \<in> set t. \<not> is_line_terminator x"
  shows "solid (c # t)"
  unfolding solid_def using scan_token [OF assms] by blast

lemma solid_append_text:
  assumes "solid x" and "\<forall>c \<in> set t. \<not> is_line_terminator c"
  shows "solid (x @ t)"
  using assms by (simp add: solid_def scan_append scan_no_lt)

lemma solid_append: "solid x \<Longrightarrow> solid y \<Longrightarrow> solid (x @ y)"
  by (simp add: solid_def scan_append)

lemma scan_break:
  assumes "\<forall>c \<in> set ind. c = CHR '' ''"
  shows "scan b ([CHR 0x0A] @ ind @ r) = scan True r"
  using scan_spaces [OF assms] by (simp add: scan_append is_line_terminator_def)

lemma solid_join:
  assumes "xs \<noteq> []" and "\<forall>x \<in> set xs. solid x" and "scan False sep \<noteq> None"
  shows "solid (join sep xs)"
  using assms
proof (induction sep xs rule: join.induct)
  case (1 sep)
  then show ?case by simp
next
  case (2 sep x)
  then show ?case by simp
next
  case (3 sep x y ys)
  then have x: "solid x" and rest: "solid (join sep (y # ys))" by simp_all
  from "3.prems"(3) obtain b' where sep: "scan False sep = Some b'" by auto
  show ?case
    unfolding solid_def
  proof
    fix b
    have "scan b (join sep (x # y # ys)) = scan b (x @ sep @ join sep (y # ys))" by simp
    also have "\<dots> = scan b' (join sep (y # ys))"
      using x sep by (simp add: solid_def scan_append)
    also have "\<dots> = Some False" using rest by (simp add: solid_def)
    finally show "scan b (join sep (x # y # ys)) = Some False" .
  qed
qed

lemma hex_digit_not_lt: "n < 16 \<Longrightarrow> \<not> is_line_terminator (hex_digit n)"
proof
  assume n: "n < 16" and "is_line_terminator (hex_digit n)"
  from lt_code [OF this(2)] n show False
    by (auto simp: hex_digit_def split: if_splits)
qed

lemma quote_char_no_lt: "\<forall>x \<in> set (quote_char c). \<not> is_line_terminator x"
proof -
  have a: "(of_char c :: nat) div 16 < 16" "(of_char c :: nat) mod 16 < 16"
    using nat_of_char_less_256 [of c] by (simp_all add: less_mult_imp_div_less)
  show ?thesis
    using hex_digit_not_lt [OF a(1)] hex_digit_not_lt [OF a(2)]
    by (simp add: quote_char_def is_line_terminator_def)
qed

lemma solid_quote: "solid (quote s)"
proof -
  have "\<forall>x \<in> set (concat (map quote_char s) @ [CHR 0x22]). \<not> is_line_terminator x"
    using quote_char_no_lt by (auto simp: is_line_terminator_def)
  then show ?thesis
    unfolding quote_def by (intro solid_token) (simp_all add: is_space_def comment_char_def)
qed

lemma solid_number: "wf_number n \<Longrightarrow> solid n"
proof -
  assume wf: "wf_number n"
  then obtain c t where n: "n = c # t" by (cases n) (auto simp: wf_number_def)
  from wf have m: "modelled_number n" by (simp add: wf_number_def)
  from m n have c: "c = CHR ''-'' \<or> is_digit c"
    by (auto simp: modelled_number_def Let_def split: if_splits)
  then have "\<not> is_space c" "\<not> comment_char c"
    by (auto simp: is_space_def comment_char_def is_digit_def)
  moreover from modelled_number_no_lt [OF m] n have "\<forall>x \<in> set t. \<not> is_line_terminator x" by simp
  ultimately show ?thesis unfolding n by (rule solid_token)
qed

lemma solid_block:
  assumes ind: "\<forall>c \<in> set ind. c = CHR '' ''"
    and xs: "xs \<noteq> []" "\<forall>x \<in> set xs. solid x"
    and opn: "\<not> is_space opn" "\<not> comment_char opn" "\<not> is_line_terminator opn"
    and cls: "\<not> is_space cls" "\<not> comment_char cls" "\<not> is_line_terminator cls"
  shows "solid (opn # CHR 0x0A # ind @ ''  ''
                @ join ('','' @ [CHR 0x0A] @ ind @ ''  '') xs @ CHR 0x0A # ind @ [cls])"
proof -
  let ?sep = "'','' @ [CHR 0x0A] @ ind @ ''  ''"
  have nl: "is_line_terminator (CHR 0x0A)" by (simp add: is_line_terminator_def)
  have sp: "is_space (CHR '' '')" "\<not> is_line_terminator (CHR '' '')"
    by (simp_all add: is_space_def is_line_terminator_def)
  have cm: "\<not> is_line_terminator (CHR '','')" by (simp add: is_line_terminator_def)
  have s2: "\<And>r. scan True (ind @ r) = scan True r"
    using scan_spaces [OF ind] by (simp add: scan_append)
  have "scan False ?sep = Some True" by (simp add: nl sp cm s2)
  then have "scan False ?sep \<noteq> None" by simp
  with xs have "solid (join ?sep xs)" by (rule solid_join)
  then have s4: "\<And>r b. scan b (join ?sep xs @ r) = scan False r"
    by (simp add: solid_def scan_append)
  show ?thesis
    unfolding solid_def
  proof
    fix b
    have "scan b (opn # CHR 0x0A # ind @ ''  '' @ join ?sep xs @ CHR 0x0A # ind @ [cls])
            = scan True (ind @ ''  '' @ join ?sep xs @ CHR 0x0A # ind @ [cls])"
      using opn by (simp add: nl)
    also have "\<dots> = scan True (''  '' @ join ?sep xs @ CHR 0x0A # ind @ [cls])" by (rule s2)
    also have "\<dots> = scan True (join ?sep xs @ CHR 0x0A # ind @ [cls])" by (simp add: sp)
    also have "\<dots> = scan False (CHR 0x0A # ind @ [cls])" by (rule s4)
    also have "\<dots> = scan True (ind @ [cls])" by (simp add: nl)
    also have "\<dots> = scan True [cls]" by (rule s2)
    also have "\<dots> = Some False" using cls by simp
    finally show "scan b (opn # CHR 0x0A # ind @ ''  '' @ join ?sep xs @ CHR 0x0A # ind @ [cls])
                  = Some False" .
  qed
qed

lemma solid_serialize:
  "wf_json v \<Longrightarrow> \<forall>c \<in> set ind. c = CHR '' '' \<Longrightarrow> solid (serialize ind v)"
proof (induction v arbitrary: ind)
  case JNull
  show ?case by (simp add: solid_def is_line_terminator_def is_space_def comment_char_def)
next
  case (JBool b)
  show ?case by (simp add: solid_def is_line_terminator_def is_space_def comment_char_def)
next
  case (JNum n)
  then show ?case by (simp add: solid_number)
next
  case (JStr s)
  show ?case by (simp add: solid_quote)
next
  case (JArr es)
  show ?case
  proof (cases "es = []")
    case True
    then show ?thesis
      by (simp add: solid_def is_line_terminator_def is_space_def comment_char_def)
  next
    case False
    let ?xs = "map (\<lambda>e. serialize (ind @ ''  '') e) es"
    from JArr.prems(2) have ind': "\<forall>c \<in> set (ind @ ''  ''). c = CHR '' ''" by simp
    have "\<forall>x \<in> set ?xs. solid x"
    proof
      fix x assume "x \<in> set ?xs"
      then obtain e where e: "e \<in> set es" and x: "x = serialize (ind @ ''  '') e" by auto
      from JArr.prems(1) e have "wf_json e" by simp
      from JArr.IH [OF e this ind'] x show "solid x" by simp
    qed
    moreover from False have "?xs \<noteq> []" by simp
    ultimately have "solid (CHR ''['' # CHR 0x0A # ind @ ''  ''
                @ join ('','' @ [CHR 0x0A] @ ind @ ''  '') ?xs @ CHR 0x0A # ind @ [CHR '']''])"
      using JArr.prems(2)
      by (intro solid_block) (simp_all add: is_line_terminator_def is_space_def comment_char_def)
    with False show ?thesis by simp
  qed
next
  case (JObj ps)
  show ?case
  proof (cases "ps = []")
    case True
    then show ?thesis
      by (simp add: solid_def is_line_terminator_def is_space_def comment_char_def)
  next
    case False
    let ?xs = "map (\<lambda>p. quote (fst p) @ '': '' @ serialize (ind @ ''  '') (snd p)) ps"
    from JObj.prems(2) have ind': "\<forall>c \<in> set (ind @ ''  ''). c = CHR '' ''" by simp
    have "\<forall>x \<in> set ?xs. solid x"
    proof
      fix x assume "x \<in> set ?xs"
      then obtain p where p: "p \<in> set ps"
        and x: "x = quote (fst p) @ '': '' @ serialize (ind @ ''  '') (snd p)" by auto
      from JObj.prems(1) p have wf: "wf_json (snd p)" by simp
      have "snd p \<in> Basic_BNFs.snds p" by (cases p) simp
      from JObj.IH [OF p this wf ind'] have a: "solid (serialize (ind @ ''  '') (snd p))" .
      have "solid (quote (fst p) @ '': '')"
        by (rule solid_append_text [OF solid_quote]) (simp add: is_line_terminator_def)
      from solid_append [OF this a] x show "solid x" by simp
    qed
    moreover from False have "?xs \<noteq> []" by simp
    ultimately have "solid (CHR ''{'' # CHR 0x0A # ind @ ''  ''
                @ join ('','' @ [CHR 0x0A] @ ind @ ''  '') ?xs @ CHR 0x0A # ind @ [CHR ''}''])"
      using JObj.prems(2)
      by (intro solid_block) (simp_all add: is_line_terminator_def is_space_def comment_char_def)
    with False show ?thesis by simp
  qed
qed

lemma JSON_stringify_no_marker_lines:
  assumes "wf_json v" and "comment_marker m"
  shows "marker_lines m (JSON_stringify v @ [CHR 0x0A]) = []"
proof -
  from solid_serialize [OF assms(1), of "[]"] have "solid (JSON_stringify v)"
    by (simp add: JSON_stringify_def)
  then have "scan True (JSON_stringify v @ [CHR 0x0A]) = Some True"
    by (simp add: solid_def scan_append is_line_terminator_def)
  then have "scan True (JSON_stringify v @ [CHR 0x0A]) \<noteq> None" by simp
  then show ?thesis using assms(2) by (rule scan_no_marker_lines)
qed

section \<open>What the cleanup keeps\<close>

lemma marker_lines_at_update:
  assumes "readFile fs q = Inr c" and "marker_lines m d = marker_lines m c"
  shows "marker_lines_at (AList.update q (File d) fs) p m = marker_lines_at fs p m"
proof (cases "p = q")
  case True
  from assms(1) have "node_at fs q = Some (File c)"
    by (auto simp: readFile_def split: option.splits node.splits)
  moreover from readFile_nonroot [OF assms(1)] have "node_at (AList.update q (File d) fs) q = Some (File d)"
    by (simp add: node_at_update)
  ultimately show ?thesis using True assms(2) by (simp add: marker_lines_at_def)
next
  case False
  then show ?thesis by (simp add: marker_lines_at_def node_at_update)
qed

lemma remove_markers_keeps_marker:
  assumes "\<forall>m \<in> set ms. wf_marker m" and "m' \<noteq> []" and "m' \<notin> set ms"
  shows "marker_lines m' (fst (remove_markers ms content modified)) = marker_lines m' content"
proof -
  have "\<forall>m \<in> set ms. \<not> (m = m') \<and> wf_marker m" using assms(1,3) by auto
  with assms(2) show ?thesis
    unfolding marker_lines_def
    using remove_markers_keeps [of "\<lambda>l. l = m'" ms content modified] by simp
qed

lemma cleanup_file_keeps_markers:
  assumes "\<forall>m \<in> set ms. wf_marker m" and "comment_marker m'" and "m' \<notin> set ms"
  shows "marker_lines_at (cleanup_file ms fs file) p m' = marker_lines_at fs p m'"
proof (cases "endsWith file ''.env.example''")
  case True
  then show ?thesis by (simp add: cleanup_file_skip)
next
  case nenv: False
  show ?thesis
  proof (cases "readFile fs (split_path file)")
    case (Inl e)
    with nenv show ?thesis by (simp add: cleanup_file_def)
  next
    case (Inr content0)
    obtain content modified where rm: "remove_markers ms content0 False = (content, modified)"
      by force
    from assms(2) have ne: "m' \<noteq> []" by (auto simp: comment_marker_def)
    from remove_markers_keeps_marker [OF assms(1) ne assms(3), of content0 False] rm
    have keep: "marker_lines m' content = marker_lines m' content0" by simp
    have wr: "\<And>d. writeFile fs (split_path file) d = Inr (AList.update (split_path file) (File d) fs)"
      using writeFile_existing [OF Inr] .
    have upd: "\<And>d. marker_lines m' d = marker_lines m' content0
                \<Longrightarrow> marker_lines_at (AList.update (split_path file) (File d) fs) p m'
                    = marker_lines_at fs p m'"
      by (rule marker_lines_at_update [OF Inr])
    show ?thesis
    proof (cases modified)
      case False
      with nenv Inr rm show ?thesis by (simp add: cleanup_file_def)
    next
      case True
      show ?thesis
      proof (cases "endsWith file ''package.json''")
        case False
        with nenv Inr rm True wr have "cleanup_file ms fs file
            = AList.update (split_path file) (File content) fs"
          by (simp add: cleanup_file_def write_or_skip_def)
        with upd [OF keep] show ?thesis by simp
      next
        case pj: True
        show ?thesis
        proof (cases "JSON_parse content")
          case (Inl e)
          with nenv Inr rm True pj wr have "cleanup_file ms fs file
              = AList.update (split_path file) (File content) fs"
            by (simp add: cleanup_file_def write_or_skip_def)
          with upd [OF keep] show ?thesis by simp
        next
          case (Inr v)
          with nenv \<open>readFile fs (split_path file) = Inr content0\<close> rm True pj wr
          have c: "cleanup_file ms fs file
              = AList.update (split_path file) (File (JSON_stringify v @ [CHR 0x0A])) fs"
            by (simp add: cleanup_file_def)
          from JSON_text_no_marker_lines [OF Inr assms(2)] keep
          have "marker_lines m' content0 = []" by simp
          moreover from JSON_stringify_no_marker_lines [OF wf_JSON_parse [OF Inr] assms(2)]
          have "marker_lines m' (JSON_stringify v @ [CHR 0x0A]) = []" .
          ultimately have "marker_lines m' (JSON_stringify v @ [CHR 0x0A]) = marker_lines m' content0"
            by simp
          from upd [OF this] c show ?thesis by simp
        qed
      qed
    qed
  qed
qed

lemma cleanupMarkers_keeps_markers:
  assumes "\<forall>m \<in> set ms. wf_marker m" and "comment_marker m'" and "m' \<notin> set ms"
  shows "marker_lines_at (cleanupMarkers glob fs targetDir ms) p m' = marker_lines_at fs p m'"
proof -
  have "marker_lines_at (foldl (cleanup_file ms) fs files) p m' = marker_lines_at fs p m'" for files
    by (induction files arbitrary: fs) (simp_all add: cleanup_file_keeps_markers [OF assms])
  then show ?thesis by (simp add: cleanupMarkers_def)
qed

section \<open>The markers that the cleanup removes\<close>

lemma set_set_add: "set (set_add m ms) = insert m (set ms)"
  by (auto simp: set_add_def)

lemma apply_injections_applied:
  "apply_injections fs targetDir ms js = (Inr ms', fs')
   \<Longrightarrow> set ms' = set ms \<union> set (applied_markers fs targetDir js)"
proof (induction js arbitrary: fs ms)
  case Nil
  then show ?case by simp
next
  case (Cons i js)
  from Cons.prems obtain b fs1
    where inj: "injectCode fs (path_join targetDir (inj_file i)) (inj_marker i) (inj_code i)
                = (Inr b, fs1)"
      and rest: "apply_injections fs1 targetDir
                   (if b then set_add (inj_marker i) ms else ms) js = (Inr ms', fs')"
    by (auto split: prod.splits sum.splits)
  from Cons.IH [OF rest] inj show ?case by (auto simp: set_set_add)
qed

lemma apply_feature_applied:
  assumes "apply_feature X loc reg targetDir fs acc k = (Inr acc', fs')"
  shows "\<exists>f fs1. map_of reg k = Some f
           \<and> copy_feature_files X loc targetDir fs f = (Inr (), fs1)
           \<and> set (injectedMarkers acc')
              = set (injectedMarkers acc)
                \<union> set (applied_markers fs1 targetDir
                         (case feat_injections f of None \<Rightarrow> [] | Some js \<Rightarrow> js))"
proof -
  from assms obtain f fs1 ms
    where f: "map_of reg k = Some f"
      and c: "copy_feature_files X loc targetDir fs f = (Inr (), fs1)"
      and a: "apply_injections fs1 targetDir (injectedMarkers acc)
                (case feat_injections f of None \<Rightarrow> [] | Some js \<Rightarrow> js) = (Inr ms, fs')"
      and acc': "acc' = (collect_dependencies acc f)\<lparr>injectedMarkers := ms\<rparr>"
    by (auto simp: apply_feature_def split: option.splits prod.splits sum.splits)
  from apply_injections_applied [OF a] acc' f c show ?thesis by simp
qed

lemma apply_features_applied:
  "apply_features X loc reg targetDir fs acc ks = (Inr acc', fs')
   \<Longrightarrow> set (injectedMarkers acc')
       = set (injectedMarkers acc) \<union> set (applied_in_run X loc reg targetDir fs acc ks)"
proof (induction ks arbitrary: fs acc)
  case Nil
  then show ?case by simp
next
  case (Cons k ks)
  from Cons.prems obtain acc1 fs1
    where step: "apply_feature X loc reg targetDir fs acc k = (Inr acc1, fs1)"
      and rest: "apply_features X loc reg targetDir fs1 acc1 ks = (Inr acc', fs')"
    by (auto split: prod.splits sum.splits)
  from apply_feature_applied [OF step] obtain f fs2
    where f: "map_of reg k = Some f"
      and c: "copy_feature_files X loc targetDir fs f = (Inr (), fs2)"
      and m: "set (injectedMarkers acc1)
              = set (injectedMarkers acc)
                \<union> set (applied_markers fs2 targetDir
                         (case feat_injections f of None \<Rightarrow> [] | Some js \<Rightarrow> js))"
    by blast
  from Cons.IH [OF rest] m f c step show ?case by (simp add: Un_assoc)
qed

lemma main_Completed:
  assumes "\<not> startsWith (currentDir loc) (TEMPLATE_ROOT loc)"
    and "target_of X loc answer = (targetDir, projectName)"
    and "check_target fs targetDir = (None, fs0)"
    and "copyDirectory X fs0 (BASE_TEMPLATE_DIR loc) targetDir = (Inr (), fs1)"
    and "processAllTemplateVariables X fs1 targetDir projectName = (Inr (), fs2)"
    and "apply_features X loc reg targetDir fs2
           \<lparr>allDependencies = [], allDevDependencies = [], injectedMarkers = []\<rparr> selected
         = (Inr acc, fs3)"
    and "(if allDependencies acc \<noteq> [] \<or> allDevDependencies acc \<noteq> []
          then mergePackageJson fs3 targetDir (allDependencies acc) (allDevDependencies acc)
          else (Inr (), fs3)) = (Inr (), fs4)"
  shows "main X loc reg answer selected fs
         = (Completed,
            if injectedMarkers acc \<noteq> []
            then cleanupMarkers (glob_markers X) fs4 targetDir (injectedMarkers acc)
            else fs4)"
proof -
  have "build X loc reg targetDir projectName selected fs0
        = (Completed,
            if injectedMarkers acc \<noteq> []
            then cleanupMarkers (glob_markers X) fs4 targetDir (injectedMarkers acc)
            else fs4)"
    using assms(4-7) by (simp add: build_def)
  with assms(1-3) show ?thesis by (simp add: main_def scaffold_def)
qed

lemma split_lines_last: "\<forall>c \<in> set l. \<not> is_line_terminator c \<Longrightarrow> split_lines l = [l]"
  by (induction l) auto

lemma split_lines_line:
  "\<forall>c \<in> set l. \<not> is_line_terminator c \<Longrightarrow> is_line_terminator d
   \<Longrightarrow> split_lines (l @ d # r) = l # split_lines r"
  by (induction l) auto

text \<open>
  Claim C2. A run goes through to the cleanup. The set \<open>injectedMarkers\<close> that the cleanup
  gets holds the markers of the injections of the run that returned \<open>applied = true\<close>, and
  no other. Every such marker is a marker of the data model (one line, not empty, no
  white space at its ends), and \<open>m'\<close> is a marker (it starts with \<^verbatim>\<open>//\<close> or \<^verbatim>\<open>#\<close>) that no
  injection of the run applied. Then the run completes, and at every path the lines
  that are the marker \<open>m'\<close> are the same after the cleanup as before it.
\<close>

theorem cleanup_keeps_unapplied_markers:
  assumes "\<not> startsWith (currentDir loc) (TEMPLATE_ROOT loc)"
    and "target_of X loc answer = (targetDir, projectName)"
    and "check_target fs targetDir = (None, fs0)"
    and "copyDirectory X fs0 (BASE_TEMPLATE_DIR loc) targetDir = (Inr (), fs1)"
    and "processAllTemplateVariables X fs1 targetDir projectName = (Inr (), fs2)"
    and "apply_features X loc reg targetDir fs2
           \<lparr>allDependencies = [], allDevDependencies = [], injectedMarkers = []\<rparr> selected
         = (Inr acc, fs3)"
    and "(if allDependencies acc \<noteq> [] \<or> allDevDependencies acc \<noteq> []
          then mergePackageJson fs3 targetDir (allDependencies acc) (allDevDependencies acc)
          else (Inr (), fs3)) = (Inr (), fs4)"
    and "\<forall>m \<in> set (applied_in_run X loc reg targetDir fs2
                       \<lparr>allDependencies = [], allDevDependencies = [], injectedMarkers = []\<rparr>
                       selected). wf_marker m"
    and "comment_marker m'"
    and "m' \<notin> set (applied_in_run X loc reg targetDir fs2
                     \<lparr>allDependencies = [], allDevDependencies = [], injectedMarkers = []\<rparr>
                     selected)"
  shows "set (injectedMarkers acc)
           = set (applied_in_run X loc reg targetDir fs2
                    \<lparr>allDependencies = [], allDevDependencies = [], injectedMarkers = []\<rparr>
                    selected)
         \<and> fst (main X loc reg answer selected fs) = Completed
         \<and> (\<forall>p. marker_lines_at (snd (main X loc reg answer selected fs)) p m'
                  = marker_lines_at fs4 p m')"
proof -
  from apply_features_applied [OF assms(6)]
  have ms: "set (injectedMarkers acc)
           = set (applied_in_run X loc reg targetDir fs2
                    \<lparr>allDependencies = [], allDevDependencies = [], injectedMarkers = []\<rparr>
                    selected)"
    by simp
  with assms(8,10) have wf: "\<forall>m \<in> set (injectedMarkers acc). wf_marker m"
    and notin: "m' \<notin> set (injectedMarkers acc)"
    by simp_all
  have run: "main X loc reg answer selected fs
         = (Completed,
            if injectedMarkers acc \<noteq> []
            then cleanupMarkers (glob_markers X) fs4 targetDir (injectedMarkers acc)
            else fs4)"
    using assms(1-7) by (rule main_Completed)
  have "marker_lines_at (snd (main X loc reg answer selected fs)) p m'
          = marker_lines_at fs4 p m'" for p
    using cleanupMarkers_keeps_markers [OF wf assms(9) notin] by (simp add: run)
  with ms run show ?thesis by simp
qed

theorem cleanup_keeps_unapplied_markers_witness:
  "main
     \<lparr>copyDirectory = (\<lambda>fs src dest.
          (Inr (), AList.update (split_path (path_join dest ''a.ts''))
                     (File (''// INJECT:A'' @ [CHR 0x0A] @ ''// INJECT:B'')) fs)),
      processAllTemplateVariables = (\<lambda>fs dir name. (Inr (), fs)),
      copyModuleFiles = (\<lambda>fs src dest files. (Inr (), fs)),
      glob_markers = (\<lambda>fs dir. [path_join dir ''a.ts'']),
      path_resolve = path_join,
      path_basename = (\<lambda>p. last (split_path p))\<rparr>
     \<lparr>currentDir = ''/w'', TEMPLATE_ROOT = ''/t'', BASE_TEMPLATE_DIR = ''/t/templates/base'',
      MODULES_DIR = ''/t/templates/modules''\<rparr>
     [(''f'',
       \<lparr>feat_name = ''F'', feat_files = None, feat_dependencies = None,
        feat_devDependencies = None,
        feat_injections =
          Some [\<lparr>inj_file = ''a.ts'', inj_marker = ''// INJECT:A'', inj_code = ''x''\<rparr>,
                \<lparr>inj_file = ''a.ts'', inj_marker = ''// INJECT:C'', inj_code = ''y''\<rparr>]\<rparr>)]
     ''app'' [''f''] [([''w''], Dir)]
   = (Completed,
      [([''w''], Dir), ([''w'', ''app''], Dir),
       ([''w'', ''app'', ''a.ts''], File (''x'' @ [CHR 0x0A] @ [CHR 0x0A] @ ''// INJECT:B''))])
   \<and> marker_lines_at
        [([''w''], Dir), ([''w'', ''app''], Dir),
         ([''w'', ''app'', ''a.ts''], File (''x'' @ [CHR 0x0A] @ [CHR 0x0A] @ ''// INJECT:B''))]
        [''w'', ''app'', ''a.ts''] ''// INJECT:B''
      = [''// INJECT:B'']"
proof -
  let ?X = "\<lparr>copyDirectory = (\<lambda>fs src dest.
          (Inr (), AList.update (split_path (path_join dest ''a.ts''))
                     (File (''// INJECT:A'' @ [CHR 0x0A] @ ''// INJECT:B'')) fs)),
      processAllTemplateVariables = (\<lambda>fs dir name. (Inr (), fs)),
      copyModuleFiles = (\<lambda>fs src dest files. (Inr (), fs)),
      glob_markers = (\<lambda>(fs :: filesystem) dir. [path_join dir ''a.ts'']),
      path_resolve = path_join,
      path_basename = (\<lambda>p. last (split_path p))\<rparr>"
  let ?loc = "\<lparr>currentDir = ''/w'', TEMPLATE_ROOT = ''/t'',
      BASE_TEMPLATE_DIR = ''/t/templates/base'', MODULES_DIR = ''/t/templates/modules''\<rparr>"
  let ?reg = "[(''f'',
       \<lparr>feat_name = ''F'', feat_files = None, feat_dependencies = None,
        feat_devDependencies = None,
        feat_injections =
          Some [\<lparr>inj_file = ''a.ts'', inj_marker = ''// INJECT:A'', inj_code = ''x''\<rparr>,
                \<lparr>inj_file = ''a.ts'', inj_marker = ''// INJECT:C'', inj_code = ''y''\<rparr>]\<rparr>)]"
  let ?start = "[([''w''], Dir)]"
  let ?made = "[([''w''], Dir), ([''w'', ''app''], Dir)]"
  let ?copied = "[([''w''], Dir), ([''w'', ''app''], Dir),
       ([''w'', ''app'', ''a.ts''], File (''// INJECT:A'' @ [CHR 0x0A] @ ''// INJECT:B''))]"
  let ?injected = "[([''w''], Dir), ([''w'', ''app''], Dir),
       ([''w'', ''app'', ''a.ts''],
        File (''x'' @ [CHR 0x0A] @ ''  // INJECT:A'' @ [CHR 0x0A] @ ''// INJECT:B''))]"
  let ?final = "[([''w''], Dir), ([''w'', ''app''], Dir),
       ([''w'', ''app'', ''a.ts''], File (''x'' @ [CHR 0x0A] @ [CHR 0x0A] @ ''// INJECT:B''))]"
  let ?none = "\<lparr>allDependencies = [], allDevDependencies = [], injectedMarkers = []\<rparr>"
  let ?acc = "\<lparr>allDependencies = [], allDevDependencies = [],
                injectedMarkers = [''// INJECT:A'']\<rparr>"
  have 1: "\<not> startsWith (currentDir ?loc) (TEMPLATE_ROOT ?loc)"
    by (simp add: startsWith_def)
  have 2: "target_of ?X ?loc ''app'' = (''/w/app'', ''app'')"
    by (simp add: target_of_def path_eval)
  have 3: "check_target ?start ''/w/app'' = (None, ?made)"
    by (simp add: run_eval fs_eval)
  have 4: "copyDirectory ?X ?made (BASE_TEMPLATE_DIR ?loc) ''/w/app'' = (Inr (), ?copied)"
    by (simp add: path_eval split_path_def)
  have 5: "processAllTemplateVariables ?X ?copied ''/w/app'' ''app'' = (Inr (), ?copied)"
    by simp
  have 6: "apply_features ?X ?loc ?reg ''/w/app'' ?copied ?none [''f''] = (Inr ?acc, ?injected)"
    by (simp add: run_eval fs_eval str_eval inject_eval)
  have 7: "(if allDependencies ?acc \<noteq> [] \<or> allDevDependencies ?acc \<noteq> []
            then mergePackageJson ?injected ''/w/app'' (allDependencies ?acc) (allDevDependencies ?acc)
            else (Inr (), ?injected)) = (Inr (), ?injected)"
    by simp
  have tr: "applied_in_run ?X ?loc ?reg ''/w/app'' ?copied ?none [''f''] = [''// INJECT:A'']"
    by (simp add: run_eval fs_eval str_eval inject_eval)
  have 8: "\<forall>m \<in> set (applied_in_run ?X ?loc ?reg ''/w/app'' ?copied ?none [''f'']). wf_marker m"
    by (simp only: tr) (simp add: wf_marker_def is_space_def is_line_terminator_def)
  have 9: "comment_marker ''// INJECT:B''"
    by (simp add: comment_marker_def comment_char_def)
  have 10: "''// INJECT:B'' \<notin> set (applied_in_run ?X ?loc ?reg ''/w/app'' ?copied ?none [''f''])"
    by (simp only: tr) simp
  have run: "main ?X ?loc ?reg ''app'' [''f''] ?start = (Completed, ?final)"
    by (simp add: run_eval fs_eval str_eval inject_eval cleanupMarkers_def cleanup_file_def
          write_or_skip_def)
  have "split_lines (''x'' @ [CHR 0x0A] @ ''  // INJECT:A'' @ [CHR 0x0A] @ ''// INJECT:B'')
        = [''x'', ''  // INJECT:A'', ''// INJECT:B'']"
    using split_lines_line [of "''x''" "CHR 0x0A" "''  // INJECT:A'' @ [CHR 0x0A] @ ''// INJECT:B''"]
      split_lines_line [of "''  // INJECT:A''" "CHR 0x0A" "''// INJECT:B''"]
      split_lines_last [of "''// INJECT:B''"]
    by (simp add: is_line_terminator_def del: split_lines.simps)
  then have before: "marker_lines_at ?injected [''w'', ''app'', ''a.ts''] ''// INJECT:B''
                = [''// INJECT:B'']"
    by (simp add: marker_lines_at_def node_at_def marker_lines_def trim_def is_space_def
          del: split_lines.simps)
  from cleanup_keeps_unapplied_markers [OF 1 2 3 4 5 6 7 8 9 10]
  have "marker_lines_at (snd (main ?X ?loc ?reg ''app'' [''f''] ?start))
          [''w'', ''app'', ''a.ts''] ''// INJECT:B''
        = marker_lines_at ?injected [''w'', ''app'', ''a.ts''] ''// INJECT:B''"
    by blast
  with run before show ?thesis by simp
qed

end
